theory Spec2Isabelle
  imports Main "HOL-Library.Log_Nat"
begin

section \<open>Text: characters, stripping, substring tests\<close>

text \<open>
  File content is modelled as a list of lines, each a \<^typ>\<open>string\<close> whose characters are
  code points below 256.  On that range Python's \<open>str.isspace\<close> and the regular-expression
  class \<open>\s\<close> accept the same twelve characters, and \<open>\d\<close> accepts the ASCII digits only.
\<close>

definition is_space :: "char \<Rightarrow> bool" where
  "is_space c \<longleftrightarrow>
     c \<in> set [CHR 0x09, CHR 0x0A, CHR 0x0B, CHR 0x0C, CHR 0x0D, CHR 0x1C, CHR 0x1D,
               CHR 0x1E, CHR 0x1F, CHR 0x20, CHR 0x85, CHR 0xA0]"

definition is_digit :: "char \<Rightarrow> bool" where
  "is_digit c \<longleftrightarrow> c \<in> set ''0123456789''"

text \<open>The value of a decimal digit, from its code point.\<close>

definition digit_val :: "char \<Rightarrow> int" where
  "digit_val c = of_char c - 48"

definition int_of_digits :: "string \<Rightarrow> int" where
  "int_of_digits s = foldl (\<lambda>a c. 10 * a + digit_val c) 0 s"

definition py_lower_char :: "char \<Rightarrow> char" where
  "py_lower_char c =
     (let n = (of_char c :: nat)
      in if (65 \<le> n \<and> n \<le> 90) \<or> (192 \<le> n \<and> n \<le> 222 \<and> n \<noteq> 215)
         then char_of (n + 32) else c)"

definition py_lower :: "string \<Rightarrow> string" where
  "py_lower s = map py_lower_char s"

text \<open>\<open>s.strip()\<close> and \<open>s.strip(chars)\<close>.\<close>

definition strip_where :: "(char \<Rightarrow> bool) \<Rightarrow> string \<Rightarrow> string" where
  "strip_where P s = rev (dropWhile P (rev (dropWhile P s)))"

definition py_strip :: "string \<Rightarrow> string" where
  "py_strip s = strip_where is_space s"

definition strip_chars :: "string \<Rightarrow> string \<Rightarrow> string" where
  "strip_chars cs s = strip_where (\<lambda>c. c \<in> set cs) s"

fun strip_prefix :: "string \<Rightarrow> string \<Rightarrow> string option" where
  "strip_prefix [] s = Some s"
| "strip_prefix (p # ps) [] = None"
| "strip_prefix (p # ps) (c # cs) = (if p = c then strip_prefix ps cs else None)"

text \<open>\<open>p in s\<close> on strings.\<close>

fun contains :: "string \<Rightarrow> string \<Rightarrow> bool" where
  "contains p [] = (p = [])"
| "contains p (c # cs) = (strip_prefix p (c # cs) \<noteq> None \<or> contains p cs)"

definition endswith :: "string \<Rightarrow> string \<Rightarrow> bool" where
  "endswith s suf \<longleftrightarrow> strip_prefix (rev suf) (rev s) \<noteq> None"

section \<open>The four regular expressions\<close>

text \<open>
  \<open>re.search\<close> tries the pattern at every start position from left to right and returns
  the first match.  The matcher for one position is a parameter.
\<close>

fun re_search :: "(string \<Rightarrow> 'a option) \<Rightarrow> string \<Rightarrow> 'a option" where
  "re_search m [] = m []"
| "re_search m (c # cs) = (case m (c # cs) of Some g \<Rightarrow> Some g | None \<Rightarrow> re_search m cs)"

text \<open>\<open>icmp_seq=(\d+)\<close> at one position: the group is the longest run of digits.\<close>

definition match_seq :: "string \<Rightarrow> string option" where
  "match_seq s =
     (case strip_prefix ''icmp_seq='' s of
        None \<Rightarrow> None
      | Some r \<Rightarrow> (let d = takeWhile is_digit r in if d = [] then None else Some d))"

text \<open>\<open>time=(\d+\.?\d*)\<close> at one position; every quantifier is greedy.\<close>

definition match_time :: "string \<Rightarrow> string option" where
  "match_time s =
     (case strip_prefix ''time='' s of
        None \<Rightarrow> None
      | Some r \<Rightarrow>
          (let d = takeWhile is_digit r
           in if d = [] then None
              else (case dropWhile is_digit r of
                      [] \<Rightarrow> Some d
                    | c # r2 \<Rightarrow> if c = CHR ''.'' then Some (d @ ''.'' @ takeWhile is_digit r2)
                                else Some d)))"

text \<open>\<open>^\[(\d+\.\d+)\]\<close>: without the MULTILINE flag \<open>^\<close> is the start of the string only.\<close>

definition match_ts :: "string \<Rightarrow> string option" where
  "match_ts s =
     (case strip_prefix ''['' s of
        None \<Rightarrow> None
      | Some r \<Rightarrow>
          (let d1 = takeWhile is_digit r
           in if d1 = [] then None
              else (case strip_prefix ''.'' (dropWhile is_digit r) of
                      None \<Rightarrow> None
                    | Some r2 \<Rightarrow>
                        (let d2 = takeWhile is_digit r2
                         in if d2 = [] then None
                            else (case strip_prefix '']'' (dropWhile is_digit r2) of
                                    None \<Rightarrow> None
                                  | Some _ \<Rightarrow> Some (d1 @ ''.'' @ d2))))))"

text \<open>
  \<open>\((\S+)\)\<close> on the text after the opening parenthesis: the greedy \<open>\S+\<close> takes the whole
  run of non-space characters and gives characters back until the next one is \<open>)\<close>; the group
  keeps at least one character.
\<close>

definition upto_last_close :: "string \<Rightarrow> string option" where
  "upto_last_close run =
     (case dropWhile (\<lambda>c. c \<noteq> CHR '')'') (rev run) of
        [] \<Rightarrow> None
      | c # pre \<Rightarrow> if pre = [] then None else Some (rev pre))"

definition match_paren :: "string \<Rightarrow> string option" where
  "match_paren s =
     (if takeWhile is_space s = [] then None
      else (case strip_prefix ''('' (dropWhile is_space s) of
              None \<Rightarrow> None
            | Some r \<Rightarrow> upto_last_close (takeWhile (\<lambda>c. \<not> is_space c) r)))"

text \<open>
  \<open>PING\s+(\S+)(?:\s+\((\S+)\))?\<close> at one position.  Group 1 is the whole run of non-space
  characters: with that choice the pattern always succeeds (the optional part may be empty),
  so the matcher never backtracks into it.
\<close>

definition match_header :: "string \<Rightarrow> (string \<times> string option) option" where
  "match_header s =
     (case strip_prefix ''PING'' s of
        None \<Rightarrow> None
      | Some r \<Rightarrow>
          if takeWhile is_space r = [] then None
          else (let r1 = dropWhile is_space r;
                    tok1 = takeWhile (\<lambda>c. \<not> is_space c) r1
                in if tok1 = [] then None
                   else Some (tok1, match_paren (dropWhile (\<lambda>c. \<not> is_space c) r1))))"

section \<open>Binary64 floating point\<close>

text \<open>
  A Python float is an IEEE 754 binary64 value.  A finite value is \<open>Fin m e\<close>, standing for
  \<open>m * 2 ^ e\<close>; results of operations are rounded to nearest, ties to even, with 53 bits of
  precision, gradual underflow at exponent \<open>-1074\<close> and overflow to infinity.  The sign of
  zero is not tracked: nothing the program prints or compares depends on it.
\<close>

datatype pyfloat = Fin int int | PInf | NInf | NaN

datatype error = ValueError | OverflowError | ZeroDivisionError | OSError

definition fzero :: pyfloat where
  "fzero = Fin 0 0"

text \<open>\<open>ilog2 n d\<close> is the floor of the binary logarithm of \<open>n / d\<close>, for positive \<open>n\<close>, \<open>d\<close>.\<close>

definition ilog2 :: "int \<Rightarrow> int \<Rightarrow> int" where
  "ilog2 n d = (if d \<le> n then bitlen (n div d) - 1 else - bitlen ((d + n - 1) div n - 1))"

definition round_half_even :: "int \<Rightarrow> int \<Rightarrow> int" where
  "round_half_even n d =
     (let q = n div d; r = n mod d
      in if 2 * r < d then q else if d < 2 * r then q + 1 else if even q then q else q + 1)"

definition mk_float :: "int \<Rightarrow> int \<Rightarrow> pyfloat" where
  "mk_float m e =
     (if m = 0 then fzero
      else let m' = (if \<bar>m\<bar> = 2 ^ 53 then m div 2 else m);
               e' = (if \<bar>m\<bar> = 2 ^ 53 then e + 1 else e)
           in if 971 < e' then (if 0 < m then PInf else NInf) else Fin m' e')"

text \<open>The binary64 value nearest to \<open>n / d\<close>, for \<open>d > 0\<close>.\<close>

definition round_ratio :: "int \<Rightarrow> int \<Rightarrow> pyfloat" where
  "round_ratio n d =
     (if n = 0 then fzero
      else let a = \<bar>n\<bar>;
               e = max (ilog2 a d - 52) (- 1074);
               m = (if 0 \<le> e then round_half_even a (d * 2 ^ nat e)
                    else round_half_even (a * 2 ^ nat (- e)) d)
           in mk_float (sgn n * m) e)"

definition round_dyadic :: "int \<Rightarrow> int \<Rightarrow> pyfloat" where
  "round_dyadic m e = (if 0 \<le> e then round_ratio (m * 2 ^ nat e) 1 else round_ratio m (2 ^ nat (- e)))"

fun fneg :: "pyfloat \<Rightarrow> pyfloat" where
  "fneg (Fin m e) = Fin (- m) e"
| "fneg PInf = NInf"
| "fneg NInf = PInf"
| "fneg NaN = NaN"

fun fabs :: "pyfloat \<Rightarrow> pyfloat" where
  "fabs (Fin m e) = Fin \<bar>m\<bar> e"
| "fabs PInf = PInf"
| "fabs NInf = PInf"
| "fabs NaN = NaN"

fun fadd :: "pyfloat \<Rightarrow> pyfloat \<Rightarrow> pyfloat" where
  "fadd (Fin m1 e1) (Fin m2 e2) =
     (let e = min e1 e2 in round_dyadic (m1 * 2 ^ nat (e1 - e) + m2 * 2 ^ nat (e2 - e)) e)"
| "fadd NaN y = NaN"
| "fadd x NaN = NaN"
| "fadd PInf NInf = NaN"
| "fadd NInf PInf = NaN"
| "fadd PInf y = PInf"
| "fadd NInf y = NInf"
| "fadd x PInf = PInf"
| "fadd x NInf = NInf"

definition fsub :: "pyfloat \<Rightarrow> pyfloat \<Rightarrow> pyfloat" where
  "fsub x y = fadd x (fneg y)"

fun fsgn :: "pyfloat \<Rightarrow> int" where
  "fsgn (Fin m e) = sgn m"
| "fsgn PInf = 1"
| "fsgn NInf = - 1"
| "fsgn NaN = 0"

fun is_fin :: "pyfloat \<Rightarrow> bool" where
  "is_fin (Fin m e) = True"
| "is_fin x = False"

definition inf_of_sign :: "int \<Rightarrow> pyfloat" where
  "inf_of_sign s = (if s = 0 then NaN else if 0 < s then PInf else NInf)"

fun fmul :: "pyfloat \<Rightarrow> pyfloat \<Rightarrow> pyfloat" where
  "fmul (Fin m1 e1) (Fin m2 e2) = round_dyadic (m1 * m2) (e1 + e2)"
| "fmul NaN y = NaN"
| "fmul x NaN = NaN"
| "fmul x y = inf_of_sign (fsgn x * fsgn y)"

text \<open>Float division raises \<open>ZeroDivisionError\<close> on a zero divisor.\<close>

fun fdiv :: "pyfloat \<Rightarrow> pyfloat \<Rightarrow> error + pyfloat" where
  "fdiv (Fin m1 e1) (Fin m2 e2) =
     (if m2 = 0 then Inl ZeroDivisionError
      else let e = min e1 e2
           in Inr (round_ratio (sgn m2 * m1 * 2 ^ nat (e1 - e)) (\<bar>m2\<bar> * 2 ^ nat (e2 - e))))"
| "fdiv NaN y = Inr NaN"
| "fdiv x NaN = Inr NaN"
| "fdiv (Fin m e) y = Inr fzero"
| "fdiv x (Fin m e) = (if m = 0 then Inl ZeroDivisionError else Inr (inf_of_sign (fsgn x * sgn m)))"
| "fdiv x y = Inr NaN"

text \<open>\<open>x < y\<close> on floats; every comparison with NaN is false.\<close>

fun flt :: "pyfloat \<Rightarrow> pyfloat \<Rightarrow> bool" where
  "flt (Fin m1 e1) (Fin m2 e2) =
     (let e = min e1 e2 in m1 * 2 ^ nat (e1 - e) < m2 * 2 ^ nat (e2 - e))"
| "flt NaN y = False"
| "flt x NaN = False"
| "flt x NInf = False"
| "flt PInf y = False"
| "flt NInf y = True"
| "flt x PInf = True"

fun fle :: "pyfloat \<Rightarrow> pyfloat \<Rightarrow> bool" where
  "fle (Fin m1 e1) (Fin m2 e2) =
     (let e = min e1 e2 in m1 * 2 ^ nat (e1 - e) \<le> m2 * 2 ^ nat (e2 - e))"
| "fle NaN y = False"
| "fle x NaN = False"
| "fle NInf y = True"
| "fle x PInf = True"
| "fle x NInf = False"
| "fle PInf y = False"

text \<open>Conversion of an int to float raises \<open>OverflowError\<close> when the int is too large.\<close>

definition no_overflow :: "pyfloat \<Rightarrow> error + pyfloat" where
  "no_overflow x = (if is_fin x then Inr x else Inl OverflowError)"

definition float_of_int :: "int \<Rightarrow> error + pyfloat" where
  "float_of_int n = no_overflow (round_ratio n 1)"

text \<open>\<open>a / b\<close> on ints: the correctly rounded quotient.\<close>

definition int_truediv :: "int \<Rightarrow> int \<Rightarrow> error + pyfloat" where
  "int_truediv a b =
     (if b = 0 then Inl ZeroDivisionError else no_overflow (round_ratio (sgn b * a) \<bar>b\<bar>))"

text \<open>
  \<open>float(s)\<close> for a string of the shape \<open>\d+\<close> or \<open>\d+\.\d*\<close>, which is what the groups of
  the patterns above hold: the correctly rounded value of the decimal numeral.
\<close>

definition py_float :: "string \<Rightarrow> pyfloat" where
  "py_float s =
     (let ip = takeWhile is_digit s;
          fp = (case dropWhile is_digit s of [] \<Rightarrow> [] | c # r \<Rightarrow> takeWhile is_digit r)
      in round_ratio (int_of_digits (ip @ fp)) (10 ^ length fp))"

definition bindE :: "'e + 'a \<Rightarrow> ('a \<Rightarrow> 'e + 'b) \<Rightarrow> 'e + 'b" where
  "bindE x f = (case x of Inl e \<Rightarrow> Inl e | Inr v \<Rightarrow> f v)"

text \<open>\<open>min\<close> and \<open>max\<close> of a list of floats; both raise on the empty list.\<close>

definition py_min :: "pyfloat list \<Rightarrow> error + pyfloat" where
  "py_min xs = (case xs of [] \<Rightarrow> Inl ValueError
                | x # r \<Rightarrow> Inr (foldl (\<lambda>b y. if flt y b then y else b) x r))"

definition py_max :: "pyfloat list \<Rightarrow> error + pyfloat" where
  "py_max xs = (case xs of [] \<Rightarrow> Inl ValueError
                | x # r \<Rightarrow> Inr (foldl (\<lambda>b y. if flt b y then y else b) x r))"

text \<open>
  \<open>sum\<close> of a list of floats.  Up to CPython 3.11 it adds the items from left to right,
  starting from the int 0.  From CPython 3.12 on it adds the first item to 0 and the others
  with Neumaier's compensated summation: beside the running sum \<open>hi\<close> it accumulates in
  \<open>lo\<close> the rounding errors of the additions, and adds \<open>lo\<close> at the end when it is
  finite and not zero.
\<close>

definition naive_sum :: "pyfloat list \<Rightarrow> pyfloat" where
  "naive_sum xs = foldl fadd fzero xs"

definition cs_add :: "pyfloat \<times> pyfloat \<Rightarrow> pyfloat \<Rightarrow> pyfloat \<times> pyfloat" where
  "cs_add acc x =
     (let hi = fst acc; lo = snd acc; t = fadd hi x
      in (t, fadd lo (if fle (fabs x) (fabs hi) then fadd (fsub hi t) x
                      else fadd (fsub x t) hi)))"

fun finite_nonzero :: "pyfloat \<Rightarrow> bool" where
  "finite_nonzero (Fin m e) = (m \<noteq> 0)"
| "finite_nonzero x = False"

definition cs_to_double :: "pyfloat \<times> pyfloat \<Rightarrow> pyfloat" where
  "cs_to_double acc = (if finite_nonzero (snd acc) then fadd (fst acc) (snd acc) else fst acc)"

definition compensated_sum_of :: "pyfloat list \<Rightarrow> pyfloat" where
  "compensated_sum_of xs =
     (case xs of [] \<Rightarrow> fzero
      | x # r \<Rightarrow> cs_to_double (foldl cs_add (fadd fzero x, fzero) r))"

section \<open>The environment\<close>

text \<open>
  What the program obtains from the interpreter, the file system and the standard library:
  the digit limit of \<open>int()\<close> (\<open>0\<close> switches it off), whether \<open>sum\<close> compensates
  rounding errors (CPython 3.12 and later), the conversion of a timestamp to a
  local date and time (which raises when the timestamp is out of range), the content of
  files (\<open>Inl\<close> carries the message of the exception raised by \<open>open\<close> or while reading),
  directory tests, expansion of glob patterns, and the formatting of dates and floats.
\<close>

record 'dt env =
  max_str_digits :: nat
  compensated_sum :: bool
  fromtimestamp :: "pyfloat \<Rightarrow> error + 'dt"
  read_lines :: "string \<Rightarrow> string + string list"
  read_head :: "string \<Rightarrow> string + string list"
  isdir :: "string \<Rightarrow> bool"
  glob :: "string \<Rightarrow> string list"
  rglob :: "string \<Rightarrow> string list"
  strftime :: "'dt \<Rightarrow> string"
  fmt_1f :: "pyfloat \<Rightarrow> string"

text \<open>\<open>int(s)\<close> for a string of digits.\<close>

definition py_sum :: "('dt, 'x) env_scheme \<Rightarrow> pyfloat list \<Rightarrow> pyfloat" where
  "py_sum env xs = (if compensated_sum env then compensated_sum_of xs else naive_sum xs)"

definition py_int :: "('dt, 'x) env_scheme \<Rightarrow> string \<Rightarrow> error + int" where
  "py_int env s =
     (if 0 < max_str_digits env \<and> max_str_digits env < length s then Inl ValueError
      else Inr (int_of_digits s))"

section \<open>analyze_ping_file\<close>

record probe_target =
  ip :: string
  hostname :: "string option"

record ping_stats =
  min_time :: pyfloat
  max_time :: pyfloat
  avg_time :: pyfloat
  mdev :: pyfloat
  stat_total_pings :: nat
  packet_loss :: pyfloat

record 'dt analysis =
  target :: probe_target
  stats :: ping_stats
  time_range :: "('dt \<times> 'dt) option"
  has_timestamps :: bool

record loop_state =
  ping_times :: "pyfloat list"
  timestamps :: "pyfloat list"
  sequences :: "int list"
  total_pings :: nat

definition target_default :: probe_target where
  "target_default = \<lparr>ip = ''Unknown'', hostname = None\<rparr>"

definition target_of_line :: "string \<Rightarrow> probe_target" where
  "target_of_line l =
     (case re_search match_header l of
        None \<Rightarrow> target_default
      | Some (g1, None) \<Rightarrow> \<lparr>ip = g1, hostname = None\<rparr>
      | Some (g1, Some g2) \<Rightarrow> \<lparr>ip = strip_chars ''()'' g2, hostname = Some g1\<rparr>)"

definition parse_target :: "string list \<Rightarrow> probe_target" where
  "parse_target lines = (case lines of [] \<Rightarrow> target_default | l # _ \<Rightarrow> target_of_line l)"

definition nonblank :: "string \<Rightarrow> bool" where
  "nonblank l \<longleftrightarrow> py_strip l \<noteq> []"

definition detect_timestamps :: "string list \<Rightarrow> bool" where
  "detect_timestamps lines = list_ex (\<lambda>l. match_ts l \<noteq> None) (filter nonblank lines)"

definition init_state :: loop_state where
  "init_state = \<lparr>ping_times = [], timestamps = [], sequences = [], total_pings = 0\<rparr>"

text \<open>One iteration of the loop over the lines.\<close>

definition loop_step ::
  "('dt, 'x) env_scheme \<Rightarrow> bool \<Rightarrow> loop_state \<Rightarrow> string \<Rightarrow> error + loop_state" where
  "loop_step env has_ts st line =
     (if \<not> nonblank line then Inr st
      else let st1 = (if contains ''icmp_seq='' line
                      then st\<lparr>total_pings := total_pings st + 1\<rparr> else st);
               st2 = (if has_ts
                      then (case match_ts line of
                              Some g \<Rightarrow> st1\<lparr>timestamps := timestamps st1 @ [py_float g]\<rparr>
                            | None \<Rightarrow> st1)
                      else st1)
           in (case re_search match_seq line of
                 None \<Rightarrow> Inr st2
               | Some sg \<Rightarrow>
                   (case re_search match_time line of
                      None \<Rightarrow> Inr st2
                    | Some tg \<Rightarrow>
                        bindE (py_int env sg) (\<lambda>n.
                          Inr (st2\<lparr>sequences := sequences st2 @ [n],
                                   ping_times := ping_times st2 @ [py_float tg]\<rparr>)))))"

fun run_loop ::
  "('dt, 'x) env_scheme \<Rightarrow> bool \<Rightarrow> loop_state \<Rightarrow> string list \<Rightarrow> error + loop_state" where
  "run_loop env has_ts st [] = Inr st"
| "run_loop env has_ts st (l # ls) =
     (case loop_step env has_ts st l of
        Inl e \<Rightarrow> Inl e
      | Inr st' \<Rightarrow> run_loop env has_ts st' ls)"

definition mean :: "('dt, 'x) env_scheme \<Rightarrow> pyfloat list \<Rightarrow> error + pyfloat" where
  "mean env xs = bindE (float_of_int (int (length xs))) (fdiv (py_sum env xs))"

definition packet_loss_of :: "nat \<Rightarrow> nat \<Rightarrow> error + pyfloat" where
  "packet_loss_of tot n =
     bindE (int_truediv (int tot - int n) (int tot)) (\<lambda>q.
     bindE (float_of_int 100) (\<lambda>h. Inr (fmul q h)))"

definition calc_stats ::
  "('dt, 'x) env_scheme \<Rightarrow> pyfloat list \<Rightarrow> nat \<Rightarrow> error + ping_stats" where
  "calc_stats env ptimes tot =
     bindE (if ptimes \<noteq> [] then py_min ptimes else Inr fzero) (\<lambda>mn.
     bindE (if ptimes \<noteq> [] then py_max ptimes else Inr fzero) (\<lambda>mx.
     bindE (if ptimes \<noteq> [] then mean env ptimes else Inr fzero) (\<lambda>av.
     bindE (if ptimes \<noteq> [] then mean env (map (\<lambda>t. fabs (fsub t av)) ptimes) else Inr fzero)
       (\<lambda>md.
     bindE (if 0 < tot then packet_loss_of tot (length ptimes) else Inr fzero) (\<lambda>pl.
       Inr \<lparr>min_time = mn, max_time = mx, avg_time = av, mdev = md,
            stat_total_pings = tot, packet_loss = pl\<rparr>)))))"

definition calc_time_range ::
  "('dt, 'x) env_scheme \<Rightarrow> pyfloat list \<Rightarrow> error + ('dt \<times> 'dt) option" where
  "calc_time_range env ts =
     (if ts \<noteq> []
      then bindE (py_min ts) (\<lambda>lo.
           bindE (fromtimestamp env lo) (\<lambda>start_time.
           bindE (py_max ts) (\<lambda>hi.
           bindE (fromtimestamp env hi) (\<lambda>end_time.
             Inr (Some (start_time, end_time))))))
      else Inr None)"

text \<open>The analysis of the lines of a file that could be read.\<close>

definition analyze_lines :: "('dt, 'x) env_scheme \<Rightarrow> string list \<Rightarrow> error + 'dt analysis" where
  "analyze_lines env lines =
     (let target_info = parse_target lines;
          has_ts = detect_timestamps lines
      in bindE (run_loop env has_ts init_state lines) (\<lambda>st.
         bindE (calc_stats env (ping_times st) (total_pings st)) (\<lambda>s.
         bindE (calc_time_range env (timestamps st)) (\<lambda>tr.
           Inr \<lparr>target = target_info, stats = s, time_range = tr, has_timestamps = has_ts\<rparr>))))"

text \<open>
  The whole function: the result is \<open>None\<close> with one line on the error stream when the file
  cannot be read; an exception raised after reading is not caught.
\<close>

definition analyze_ping_file ::
  "('dt, 'x) env_scheme \<Rightarrow> string \<Rightarrow> error + ('dt analysis option \<times> string list)" where
  "analyze_ping_file env filename =
     (case read_lines env filename of
        Inl msg \<Rightarrow> Inr (None, [''Error reading file '' @ filename @ '': '' @ msg])
      | Inr lines \<Rightarrow> bindE (analyze_lines env lines) (\<lambda>r. Inr (Some r, [])))"

section \<open>generate_markdown\<close>

text \<open>
  \<open>results\<close> is a Python dict: a list of key-value pairs in insertion order, in which
  assigning to a key that is present replaces the value and keeps the key's position.
\<close>

fun dict_set :: "('k \<times> 'v) list \<Rightarrow> 'k \<Rightarrow> 'v \<Rightarrow> ('k \<times> 'v) list" where
  "dict_set [] k v = [(k, v)]"
| "dict_set (p # ps) k v = (if fst p = k then (k, v) # ps else p # dict_set ps k v)"

definition basename :: "string \<Rightarrow> string" where
  "basename p = rev (takeWhile (\<lambda>c. c \<noteq> CHR ''/'') (rev p))"

definition digit_char :: "nat \<Rightarrow> char" where
  "digit_char n = ''0123456789'' ! n"

fun str_nat :: "nat \<Rightarrow> string" where
  "str_nat n = (if n < 10 then [digit_char n] else str_nat (n div 10) @ [digit_char (n mod 10)])"

declare str_nat.simps [simp del]

definition heading_prefix :: string where
  "heading_prefix = ''## Ping Analysis: ''"

text \<open>The lines appended for one entry of \<open>results\<close>; an analysis is never falsy.\<close>

definition md_section :: "('dt, 'x) env_scheme \<Rightarrow> string \<times> 'dt analysis \<Rightarrow> string list" where
  "md_section env entry =
     (let filename = fst entry; data = snd entry; tgt = target data; st = stats data
      in [heading_prefix @ basename filename, []]
         @ [case hostname tgt of
              None \<Rightarrow> ''**Host:** '' @ ip tgt
            | Some h \<Rightarrow> if h \<noteq> [] then ''**Host:** '' @ h @ '' ('' @ ip tgt @ '')''
                        else ''**Host:** '' @ ip tgt,
            []]
         @ (case time_range data of
              None \<Rightarrow> []
            | Some (start_time, end_time) \<Rightarrow>
                [''**Time Range:** '' @ strftime env start_time @ '' to '' @ strftime env end_time,
                 []])
         @ [''| Metric | Value |'',
            ''|--------|-------|'',
            ''| Minimum Latency | '' @ fmt_1f env (min_time st) @ '' ms |'',
            ''| Average Latency | '' @ fmt_1f env (avg_time st) @ '' ms |'',
            ''| Maximum Latency | '' @ fmt_1f env (max_time st) @ '' ms |'',
            ''| Mean Deviation | '' @ fmt_1f env (mdev st) @ '' ms |'',
            ''| Packet Loss | '' @ fmt_1f env (packet_loss st) @ ''% |'',
            ''| Total Pings | '' @ str_nat (stat_total_pings st) @ '' |'',
            [],
            []])"

definition markdown_lines ::
  "('dt, 'x) env_scheme \<Rightarrow> (string \<times> 'dt analysis) list \<Rightarrow> string list" where
  "markdown_lines env results = concat (map (md_section env) results)"

fun join_lines :: "string list \<Rightarrow> string" where
  "join_lines [] = []"
| "join_lines [l] = l"
| "join_lines (l # ls) = l @ [CHR 0x0A] @ join_lines ls"

definition generate_markdown ::
  "('dt, 'x) env_scheme \<Rightarrow> (string \<times> 'dt analysis) list \<Rightarrow> string" where
  "generate_markdown env results = join_lines (markdown_lines env results)"

section \<open>is_ping_file and main\<close>

text \<open>The result of the sniff and what it printed on the error stream.\<close>

definition is_ping_file :: "('dt, 'x) env_scheme \<Rightarrow> string \<Rightarrow> bool \<times> string list" where
  "is_ping_file env filename =
     (case read_head env filename of
        Inl msg \<Rightarrow> (False, [''Error reading file '' @ filename @ '': '' @ msg])
      | Inr ls \<Rightarrow> (contains ''ping'' (py_lower (concat (take 10 ls))), []))"

text \<open>A list comprehension with a condition that may print.\<close>

fun filter_io :: "(string \<Rightarrow> bool \<times> string list) \<Rightarrow> string list \<Rightarrow> string list \<times> string list" where
  "filter_io c [] = ([], [])"
| "filter_io c (f # fs) =
     (let r = c f; rest = filter_io c fs
      in (if fst r then f # fst rest else fst rest, snd r @ snd rest))"

definition path_join :: "string \<Rightarrow> string \<Rightarrow> string" where
  "path_join a b =
     (if strip_prefix ''/'' b \<noteq> None then b
      else if a = [] \<or> endswith a ''/'' then a @ b
      else a @ ''/'' @ b)"

definition is_log_name :: "string \<Rightarrow> bool" where
  "is_log_name f \<longleftrightarrow> endswith f ''.txt'' \<or> endswith f ''.log''"

definition quoted :: "string \<Rightarrow> string" where
  "quoted s = [CHR 0x27] @ s @ [CHR 0x27]"

text \<open>The body of the loop over the two patterns of a directory argument.\<close>

definition dir_pattern_step ::
  "('dt, 'x) env_scheme \<Rightarrow> string \<Rightarrow> string list \<times> string list \<Rightarrow> string
     \<Rightarrow> string list \<times> string list" where
  "dir_pattern_step env arg acc pattern =
     (let matched_files = rglob env (path_join (path_join arg ''**'') pattern);
          ping_files = filter_io (is_ping_file env) matched_files
      in (fst acc @ fst ping_files, snd acc @ snd ping_files))"

text \<open>The body of the loop over the arguments; the state is \<open>files\<close> and the error stream.\<close>

definition arg_step ::
  "('dt, 'x) env_scheme \<Rightarrow> string list \<times> string list \<Rightarrow> string
     \<Rightarrow> string list \<times> string list" where
  "arg_step env acc arg =
     (if isdir env arg
      then (let acc' = foldl (dir_pattern_step env arg) acc [''*.txt'', ''*.log'']
            in if fst acc' = []
               then (fst acc',
                     snd acc' @ [''Warning: No ping files found in directory '' @ quoted arg])
               else acc')
      else (let matched_files = glob env arg
            in if matched_files \<noteq> []
               then (let ping_files =
                           filter_io (\<lambda>f. if is_log_name f then is_ping_file env f else (False, []))
                             matched_files
                     in (fst acc @ fst ping_files, snd acc @ snd ping_files))
               else (fst acc,
                     snd acc @ [''Warning: No files found matching pattern '' @ quoted arg])))"

definition default_step ::
  "('dt, 'x) env_scheme \<Rightarrow> string list \<times> string list \<Rightarrow> string \<Rightarrow> string list \<times> string list" where
  "default_step env acc pattern =
     (let ping_files = filter_io (is_ping_file env) (glob env pattern)
      in (fst acc @ fst ping_files, snd acc @ snd ping_files))"

definition discover :: "('dt, 'x) env_scheme \<Rightarrow> string list \<Rightarrow> string list \<times> string list" where
  "discover env args =
     (if args \<noteq> [] then foldl (arg_step env) ([], []) args
      else foldl (default_step env) ([], []) [''*.txt'', ''*.log''])"

text \<open>
  The loop over the discovered files: \<open>Inl\<close> when an analysis raises, with the error stream
  as it was at that moment.
\<close>

fun analyze_all ::
  "('dt, 'x) env_scheme \<Rightarrow> (string \<times> 'dt analysis) list \<Rightarrow> string list \<Rightarrow> string list
     \<Rightarrow> (error \<times> string list) + ((string \<times> 'dt analysis) list \<times> string list)" where
  "analyze_all env results err [] = Inr (results, err)"
| "analyze_all env results err (file # files) =
     (case analyze_ping_file env file of
        Inl e \<Rightarrow> Inl (e, err)
      | Inr (None, msgs) \<Rightarrow> analyze_all env results (err @ msgs) files
      | Inr (Some result, msgs) \<Rightarrow>
          analyze_all env (dict_set results file result) (err @ msgs) files)"

text \<open>
  What a run leaves behind: the strings printed on standard output, the lines on the error
  stream, the exit status, and the exception that ended the run, if one did (the interpreter
  then prints a traceback on the error stream and exits with status 1).
\<close>

record outcome =
  stdout :: "string list"
  stderr :: "string list"
  status :: nat
  uncaught :: "error option"

definition main :: "('dt, 'x) env_scheme \<Rightarrow> string list \<Rightarrow> outcome" where
  "main env args =
     (let d = discover env args; files = fst d; err = snd d
      in if files = []
         then \<lparr>stdout = [], stderr = err @ [''Error: No ping files found to analyze.''],
               status = 1, uncaught = None\<rparr>
         else (case analyze_all env [] err files of
                 Inl (e, err') \<Rightarrow> \<lparr>stdout = [], stderr = err', status = 1, uncaught = Some e\<rparr>
               | Inr (results, err') \<Rightarrow>
                   if results \<noteq> []
                   then \<lparr>stdout = [generate_markdown env results], stderr = err', status = 0,
                         uncaught = None\<rparr>
                   else \<lparr>stdout = [],
                         stderr = err' @ [''No valid ping data found in input files.''],
                         status = 1, uncaught = None\<rparr>))"

section \<open>What the specification says, as functions of the lines\<close>

text \<open>
  The raw probe counter counts the lines that contain \<open>icmp_seq=\<close>; a line contributes a
  sample when both a sequence number and a time value can be extracted from it; the sample's
  round-trip time is the float value of the extracted text.
\<close>

definition raw_probe_count :: "string list \<Rightarrow> nat" where
  "raw_probe_count lines = length (filter (contains ''icmp_seq='') lines)"

definition is_sample_line :: "string \<Rightarrow> bool" where
  "is_sample_line l \<longleftrightarrow> re_search match_seq l \<noteq> None \<and> re_search match_time l \<noteq> None"

definition sample_times :: "string list \<Rightarrow> pyfloat list" where
  "sample_times lines =
     map (\<lambda>l. py_float (the (re_search match_time l))) (filter is_sample_line lines)"

definition sample_count :: "string list \<Rightarrow> nat" where
  "sample_count lines = length (filter is_sample_line lines)"

definition has_ts_prefix :: "string \<Rightarrow> bool" where
  "has_ts_prefix l \<longleftrightarrow> match_ts l \<noteq> None"

definition timestamp_values :: "string list \<Rightarrow> pyfloat list" where
  "timestamp_values lines = map (\<lambda>l. py_float (the (match_ts l))) (filter has_ts_prefix lines)"

text \<open>Least and greatest element of a list of floats with respect to \<open>\<le>\<close> on floats.\<close>

definition is_least :: "pyfloat \<Rightarrow> pyfloat list \<Rightarrow> bool" where
  "is_least m xs \<longleftrightarrow> m \<in> set xs \<and> list_all (\<lambda>x. fle m x) xs"

definition is_greatest :: "pyfloat \<Rightarrow> pyfloat list \<Rightarrow> bool" where
  "is_greatest m xs \<longleftrightarrow> m \<in> set xs \<and> list_all (\<lambda>x. fle x m) xs"

text \<open>The number of section headings among the lines of a report.\<close>

definition heading_count :: "string list \<Rightarrow> nat" where
  "heading_count ls = length (filter (\<lambda>l. strip_prefix heading_prefix l \<noteq> None) ls)"

section \<open>A small file system for concrete runs\<close>

definition with_newlines :: "string list \<Rightarrow> string list" where
  "with_newlines ls = map (\<lambda>l. l @ [CHR 0x0A]) ls"

definition spec_example_lines :: "string list" where
  "spec_example_lines =
     [''PING example.com (93.184.216.34) 56 data bytes'',
      ''64 bytes from 93.184.216.34: icmp_seq=1 ttl=56 time=11.2 ms'']"

definition b_log_lines :: "string list" where
  "b_log_lines = with_newlines
     [''PING 10.0.0.1 56 data bytes'',
      ''[1700000000.5] 64 bytes from 10.0.0.1: icmp_seq=1 ttl=64 time=0.1 ms'',
      ''[1700000001.5] 64 bytes from 10.0.0.1: icmp_seq=2 ttl=64 time=0.1 ms'',
      ''[1700000002.5] 64 bytes from 10.0.0.1: icmp_seq=3 ttl=64 time=0.1 ms'',
      ''[1700000003.5] no answer yet for icmp_seq=4'']"

definition late_lines :: "string list" where
  "late_lines = with_newlines
     [''PING 10.0.0.2 56 data bytes'',
      ''[999999999999.0] 64 bytes from 10.0.0.2: icmp_seq=1 ttl=64 time=1 ms'']"

definition c_log_lines :: "string list" where
  "c_log_lines = with_newlines
     [''PING 10.0.0.3 56 data bytes'',
      ''64 bytes from 10.0.0.3: icmp_seq=1 ttl=64 time=0.1 ms'',
      ''64 bytes from 10.0.0.3: icmp_seq=2 ttl=64 time=0.2 ms'',
      ''64 bytes from 10.0.0.3: icmp_seq=3 ttl=64 time=0.3 ms'']"

definition sample_files :: "(string \<times> string list) list" where
  "sample_files =
     [(''a.txt'', with_newlines spec_example_lines),
      (''b.log'', b_log_lines),
      (''c.log'', c_log_lines),
      (''empty.txt'', []),
      (''late.txt'', late_lines)]"

definition sample_read :: "string \<Rightarrow> string + string list" where
  "sample_read f =
     (case map_of sample_files f of
        None \<Rightarrow> Inl ''[Errno 2] No such file or directory''
      | Some ls \<Rightarrow> Inr ls)"

text \<open>
  A date is represented by its timestamp; the conversion fails after the end of year 9999.
  The directory \<open>logs\<close> is empty.
\<close>

definition sample_env :: "pyfloat env" where
  "sample_env =
     \<lparr>max_str_digits = 4300,
      compensated_sum = False,
      fromtimestamp = (\<lambda>t. if fle t (Fin 253402300799 0) then Inr t else Inl ValueError),
      read_lines = sample_read,
      read_head = sample_read,
      isdir = (\<lambda>p. p = ''logs''),
      glob = (\<lambda>p. if p \<in> set (map fst sample_files) then [p] else []),
      rglob = (\<lambda>p. []),
      strftime = (\<lambda>d. ''<date>''),
      fmt_1f = (\<lambda>x. ''<float>'')\<rparr>"

text \<open>The same environment with the summation of CPython 3.12 and later.\<close>

definition sample_env_312 :: "pyfloat env" where
  "sample_env_312 = sample_env\<lparr>compensated_sum := True\<rparr>"

text \<open>The rational number a finite float stands for.\<close>

definition fval :: "pyfloat \<Rightarrow> rat" where
  "fval x = (case x of Fin m e \<Rightarrow> of_int m * 2 powi e | _ \<Rightarrow> 0)"

text \<open>
  The analysis of \<open>b.log\<close>: three samples of 0.1 ms among four probes, timestamps on every
  probe line.  \<open>Fin 7205759403792794 (- 56)\<close> is the float \<open>0.1\<close>,
  \<open>Fin 7205759403792795 (- 56)\<close> is \<open>0.10000000000000002\<close>, and
  \<open>Fin 7036874417766400 (- 48)\<close> is \<open>25.0\<close>.
\<close>

definition b_log_result :: "pyfloat analysis" where
  "b_log_result =
     \<lparr>target = \<lparr>ip = ''10.0.0.1'', hostname = None\<rparr>,
      stats = \<lparr>min_time = Fin 7205759403792794 (- 56),
                max_time = Fin 7205759403792794 (- 56),
                avg_time = Fin 7205759403792795 (- 56),
                mdev = Fin 4503599627370496 (- 108),
                stat_total_pings = 4,
                packet_loss = Fin 7036874417766400 (- 48)\<rparr>,
      time_range = Some (Fin 7130316802097152 (- 22), Fin 7130316814680064 (- 22)),
      has_timestamps = True\<rparr>"

text \<open>
  The analyses of \<open>c.log\<close>, with samples 0.1, 0.2 and 0.3 ms.  The average is
  \<open>Fin 7205759403792795 (- 55)\<close>, that is \<open>0.20000000000000004\<close>, with the summation from
  left to right, and \<open>Fin 7205759403792793 (- 55)\<close>, that is \<open>0.19999999999999998\<close>, with
  the compensated summation.
\<close>

definition c_log_result :: "pyfloat analysis" where
  "c_log_result =
     \<lparr>target = \<lparr>ip = ''10.0.0.3'', hostname = None\<rparr>,
      stats = \<lparr>min_time = Fin 7205759403792794 (- 56),
                max_time = Fin 5404319552844595 (- 54),
                avg_time = Fin 7205759403792795 (- 55),
                mdev = Fin 4803839602528529 (- 56),
                stat_total_pings = 3,
                packet_loss = fzero\<rparr>,
      time_range = None,
      has_timestamps = False\<rparr>"

definition c_log_result_312 :: "pyfloat analysis" where
  "c_log_result_312 =
     \<lparr>target = \<lparr>ip = ''10.0.0.3'', hostname = None\<rparr>,
      stats = \<lparr>min_time = Fin 7205759403792794 (- 56),
                max_time = Fin 5404319552844595 (- 54),
                avg_time = Fin 7205759403792793 (- 55),
                mdev = Fin 4803839602528529 (- 56),
                stat_total_pings = 3,
                packet_loss = fzero\<rparr>,
      time_range = None,
      has_timestamps = False\<rparr>"

text \<open>
  The arithmetic mean of the values of a list of floats, and the mean of their absolute
  deviations from a value, both as rational numbers, without rounding.
\<close>

definition arithmetic_mean :: "pyfloat list \<Rightarrow> rat" where
  "arithmetic_mean xs = sum_list (map fval xs) / of_nat (length xs)"

definition mean_abs_deviation :: "rat \<Rightarrow> pyfloat list \<Rightarrow> rat" where
  "mean_abs_deviation a xs = sum_list (map (\<lambda>x. \<bar>fval x - a\<bar>) xs) / of_nat (length xs)"

text \<open>The exponent of a finite float is at least that of the subnormal numbers.\<close>

definition in_range :: "pyfloat \<Rightarrow> bool" where
  "in_range x = (case x of Fin m e \<Rightarrow> - 1074 \<le> e | _ \<Rightarrow> True)"

section \<open>What the specification says about discovery and the report\<close>

text \<open>A file yields a usable analysis when it can be read and its analysis returns.\<close>

definition usable :: "('dt, 'x) env_scheme \<Rightarrow> string \<Rightarrow> bool" where
  "usable env f = (case analyze_ping_file env f of Inr (Some r, msgs) \<Rightarrow> True | _ \<Rightarrow> False)"

text \<open>The analysis of a file aborts the run when it raises.\<close>

definition raises :: "('dt, 'x) env_scheme \<Rightarrow> string \<Rightarrow> bool" where
  "raises env f = (case analyze_ping_file env f of Inl e \<Rightarrow> True | Inr x \<Rightarrow> False)"

text \<open>The candidates one argument contributes, with every occurrence kept.\<close>

definition sniff_ok :: "('dt, 'x) env_scheme \<Rightarrow> string \<Rightarrow> bool" where
  "sniff_ok env f = fst (is_ping_file env f)"

definition arg_candidates :: "('dt, 'x) env_scheme \<Rightarrow> string \<Rightarrow> string list" where
  "arg_candidates env arg =
     (if isdir env arg
      then filter (sniff_ok env) (rglob env (path_join (path_join arg ''**'') ''*.txt''))
           @ filter (sniff_ok env) (rglob env (path_join (path_join arg ''**'') ''*.log''))
      else filter (\<lambda>f. is_log_name f \<and> sniff_ok env f) (glob env arg))"

text \<open>The elements of a list without repetitions, in the order of their first occurrence.\<close>

definition add_new :: "'a list \<Rightarrow> 'a \<Rightarrow> 'a list" where
  "add_new acc x = (if x \<in> set acc then acc else acc @ [x])"

definition first_occurrences :: "'a list \<Rightarrow> 'a list" where
  "first_occurrences xs = foldl add_new [] xs"

text \<open>The analysis of \<open>a.txt\<close>; \<open>Fin 6305039478318694 (- 49)\<close> is the float \<open>11.2\<close>.\<close>

definition a_txt_result :: "pyfloat analysis" where
  "a_txt_result =
     \<lparr>target = \<lparr>ip = ''93.184.216.34'', hostname = Some ''example.com''\<rparr>,
      stats = \<lparr>min_time = Fin 6305039478318694 (- 49),
                max_time = Fin 6305039478318694 (- 49),
                avg_time = Fin 6305039478318694 (- 49),
                mdev = fzero,
                stat_total_pings = 1,
                packet_loss = fzero\<rparr>,
      time_range = None,
      has_timestamps = False\<rparr>"

text \<open>The candidate list: with no arguments, the two default patterns in the current directory.\<close>

definition candidate_list :: "('dt, 'x) env_scheme \<Rightarrow> string list \<Rightarrow> string list" where
  "candidate_list env args =
     (if args \<noteq> [] then concat (map (arg_candidates env) args)
      else filter (sniff_ok env) (glob env ''*.txt'') @ filter (sniff_ok env) (glob env ''*.log''))"

text \<open>
  A parenthesised second token follows the first one: white space, an opening parenthesis, a
  non-empty token without white space, a closing parenthesis.
\<close>

definition paren_token_follows :: "string \<Rightarrow> bool" where
  "paren_token_follows rest \<longleftrightarrow>
     (\<exists>ws tok rest'. rest = ws @ ''('' @ tok @ '')'' @ rest' \<and> ws \<noteq> [] \<and> list_all is_space ws
        \<and> tok \<noteq> [] \<and> list_all (\<lambda>c. \<not> is_space c) tok)"

text \<open>
  The shape of a header line \<open>pre PING ws tok1 rest\<close>: no \<open>P\<close> before \<open>PING\<close>, white space
  \<open>ws\<close>, and the token \<open>tok1\<close> ending at the end of the line or at white space.
\<close>

definition header_shape :: "string \<Rightarrow> string \<Rightarrow> string \<Rightarrow> string \<Rightarrow> bool" where
  "header_shape pre ws tok1 rest \<longleftrightarrow>
     CHR ''P'' \<notin> set pre \<and> ws \<noteq> [] \<and> list_all is_space ws
     \<and> tok1 \<noteq> [] \<and> list_all (\<lambda>c. \<not> is_space c) tok1
     \<and> (rest = [] \<or> is_space (hd rest))"

section \<open>Facts about the text functions\<close>

lemma strip_prefix_Some: "strip_prefix p s = Some r \<longleftrightarrow> s = p @ r"
  by (induction p s rule: strip_prefix.induct) auto

lemma strip_prefix_None: "strip_prefix p s = None \<longleftrightarrow> (\<forall>r. s \<noteq> p @ r)"
  using strip_prefix_Some [of p s] by (cases "strip_prefix p s") auto

lemma contains_iff: "contains p s \<longleftrightarrow> (\<exists>a b. s = a @ p @ b)"
proof (induction s)
  case Nil
  then show ?case by auto
next
  case (Cons c cs)
  have "(\<exists>a b. c # cs = a @ p @ b) \<longleftrightarrow> (\<exists>b. c # cs = p @ b) \<or> (\<exists>a b. cs = a @ p @ b)"
  proof
    assume "\<exists>a b. c # cs = a @ p @ b"
    then obtain a b where ab: "c # cs = a @ p @ b" by blast
    show "(\<exists>b. c # cs = p @ b) \<or> (\<exists>a b. cs = a @ p @ b)"
    proof (cases a)
      case Nil
      with ab show ?thesis by auto
    next
      case (Cons x a')
      with ab have "cs = a' @ p @ b" by simp
      then show ?thesis by blast
    qed
  next
    assume "(\<exists>b. c # cs = p @ b) \<or> (\<exists>a b. cs = a @ p @ b)"
    then show "\<exists>a b. c # cs = a @ p @ b"
    proof
      assume "\<exists>b. c # cs = p @ b"
      then obtain b where "c # cs = [] @ p @ b" by auto
      then show ?thesis by blast
    next
      assume "\<exists>a b. cs = a @ p @ b"
      then obtain a b where "c # cs = (c # a) @ p @ b" by auto
      then show ?thesis by blast
    qed
  qed
  moreover have "strip_prefix p (c # cs) \<noteq> None \<longleftrightarrow> (\<exists>b. c # cs = p @ b)"
    using strip_prefix_Some [of p "c # cs"] by (cases "strip_prefix p (c # cs)") auto
  ultimately show ?case using Cons.IH by simp
qed

lemma re_search_Some: "re_search m s = Some g \<Longrightarrow> \<exists>a b. s = a @ b \<and> m b = Some g"
proof (induction s)
  case Nil
  then show ?case by simp
next
  case (Cons c cs)
  show ?case
  proof (cases "m (c # cs)")
    case None
    with Cons.prems have "re_search m cs = Some g" by simp
    from Cons.IH [OF this] obtain a b where "cs = a @ b" "m b = Some g" by blast
    then have "c # cs = (c # a) @ b \<and> m b = Some g" by simp
    then show ?thesis by blast
  next
    case (Some g')
    with Cons.prems have "g' = g" by simp
    with Some have "c # cs = [] @ (c # cs) \<and> m (c # cs) = Some g" by simp
    then show ?thesis by blast
  qed
qed

lemma match_seq_Some: "match_seq b = Some g \<Longrightarrow> \<exists>r. b = ''icmp_seq='' @ r"
  unfolding match_seq_def
  by (cases "strip_prefix ''icmp_seq='' b") (auto simp: strip_prefix_Some simp del: strip_prefix.simps)

lemma search_seq_contains: "re_search match_seq l = Some g \<Longrightarrow> contains ''icmp_seq='' l"
proof -
  assume "re_search match_seq l = Some g"
  from re_search_Some [OF this] obtain a b where ab: "l = a @ b" "match_seq b = Some g" by blast
  from match_seq_Some [OF ab(2)] obtain r where "b = ''icmp_seq='' @ r" by blast
  with ab have "l = a @ ''icmp_seq='' @ r" by simp
  then show ?thesis unfolding contains_iff by blast
qed

lemma strip_where_Nil: "strip_where P s = [] \<longleftrightarrow> (\<forall>c\<in>set s. P c)"
proof
  assume "strip_where P s = []"
  then have all: "\<forall>c\<in>set (dropWhile P s). P c"
    by (simp add: strip_where_def dropWhile_eq_Nil_conv)
  have "dropWhile P s = []"
  proof (rule ccontr)
    assume ne: "dropWhile P s \<noteq> []"
    then have "\<not> P (hd (dropWhile P s))" by (rule hd_dropWhile)
    moreover from ne have "hd (dropWhile P s) \<in> set (dropWhile P s)" by simp
    ultimately show False using all by blast
  qed
  then show "\<forall>c\<in>set s. P c" by (simp add: dropWhile_eq_Nil_conv)
next
  assume "\<forall>c\<in>set s. P c"
  then have e: "dropWhile P s = []" by (simp add: dropWhile_eq_Nil_conv)
  show "strip_where P s = []" unfolding strip_where_def e by simp
qed

lemma nonblank_iff: "nonblank l \<longleftrightarrow> (\<exists>c\<in>set l. \<not> is_space c)"
  by (simp add: nonblank_def py_strip_def strip_where_Nil)

lemma contains_nonblank: "contains ''icmp_seq='' l \<Longrightarrow> nonblank l"
proof -
  assume "contains ''icmp_seq='' l"
  then obtain a b where "l = a @ ''icmp_seq='' @ b" unfolding contains_iff by blast
  then have "CHR ''i'' \<in> set l" by simp
  moreover have "\<not> is_space CHR ''i''" by (simp add: is_space_def)
  ultimately show ?thesis unfolding nonblank_iff by blast
qed

lemma match_ts_nonblank: "match_ts l = Some g \<Longrightarrow> nonblank l"
proof -
  assume a: "match_ts l = Some g"
  then obtain r where "strip_prefix ''['' l = Some r"
    unfolding match_ts_def by (cases "strip_prefix ''['' l") auto
  then have "l = ''['' @ r" by (simp only: strip_prefix_Some)
  then have "CHR ''['' \<in> set l" by simp
  moreover have "\<not> is_space CHR ''[''" by (simp add: is_space_def)
  ultimately show ?thesis unfolding nonblank_iff by blast
qed

section \<open>Facts about rounding\<close>

lemma fval_Fin [simp]: "fval (Fin m e) = of_int m * 2 powi e"
  by (simp add: fval_def)

lemma fval_fzero [simp]: "fval fzero = 0"
  by (simp add: fzero_def)

lemma is_fin_fzero [simp]: "is_fin fzero"
  by (simp add: fzero_def)

lemma round_half_even_bounds:
  assumes "0 \<le> n" "0 < d" "n \<le> Y * d"
  shows "0 \<le> round_half_even n d \<and> round_half_even n d \<le> Y"
proof -
  define q where "q = n div d"
  define r where "r = n mod d"
  have n_eq: "n = d * q + r" by (simp add: q_def r_def)
  have r0: "0 \<le> r" and rd: "r < d" using assms(2) by (simp_all add: r_def)
  have q0: "0 \<le> q" using assms(1,2) by (simp add: q_def pos_imp_zdiv_nonneg_iff)
  have "n div d \<le> (Y * d) div d" using assms(2,3) by (intro zdiv_mono1) simp_all
  then have qY: "q \<le> Y" using assms(2) by (simp add: q_def)
  have up: "q + 1 \<le> Y" if "\<not> 2 * r < d"
  proof -
    from that assms(2) have "0 < r" by linarith
    with n_eq assms(3) have "d * q < d * Y" by (simp add: mult.commute)
    with assms(2) have "q < Y" by (simp add: mult_less_cancel_left_pos)
    then show ?thesis by simp
  qed
  show ?thesis
    unfolding round_half_even_def Let_def q_def [symmetric] r_def [symmetric]
    using q0 qY up by auto
qed

lemma mk_float_fin: "e \<le> 970 \<Longrightarrow> is_fin (mk_float m e)"
  by (simp add: mk_float_def Let_def)

lemma mk_float_val: "is_fin (mk_float m e) \<Longrightarrow> fval (mk_float m e) = of_int m * 2 powi e"
proof (cases "\<bar>m\<bar> = 2 ^ 53")
  case False
  assume "is_fin (mk_float m e)"
  with False show ?thesis by (auto simp: mk_float_def Let_def split: if_splits)
next
  case True
  assume fin: "is_fin (mk_float m e)"
  from True have "m = 9007199254740992 \<or> m = - 9007199254740992"
    by (simp add: abs_if split: if_splits)
  then have m2: "m = 2 * (m div 2)" by auto
  have "(2::rat) powi (e + 1) = 2 powi e * 2" by (simp add: power_int_add)
  then have "of_int (m div 2) * (2::rat) powi (e + 1) = of_int (2 * (m div 2)) * 2 powi e"
    by simp
  also have "\<dots> = of_int m * 2 powi e" using m2 by simp
  finally show ?thesis using True fin by (auto simp: mk_float_def Let_def split: if_splits)
qed

lemma ilog2_le:
  assumes "0 < n" "0 < d" "n \<le> B * d" "B < 2 ^ 53"
  shows "ilog2 n d \<le> 52"
proof (cases "d \<le> n")
  case True
  have "n div d \<le> (B * d) div d" using assms(2,3) by (intro zdiv_mono1) simp_all
  then have "n div d < 2 ^ 53" using assms(2,4) by simp
  then have "bitlen (n div d) \<le> 53" by (simp add: bitlen_le_iff_power)
  with True show ?thesis by (simp add: ilog2_def)
next
  case False
  then show ?thesis using bitlen_nonneg [of "(d + n - 1) div n - 1"] by (simp add: ilog2_def)
qed

lemma round_ratio_bounded:
  assumes "0 \<le> n" "0 < d" "n \<le> B * d" "B < 2 ^ 53"
  shows "is_fin (round_ratio n d) \<and> 0 \<le> fval (round_ratio n d) \<and> fval (round_ratio n d) \<le> of_int B"
proof (cases "n = 0")
  case True
  with assms(2,3) have "0 \<le> B" by (simp add: zero_le_mult_iff)
  with True show ?thesis by (simp add: round_ratio_def)
next
  case False
  with assms(1) have npos: "0 < n" by simp
  define e where "e = max (ilog2 n d - 52) (- 1074)"
  define k where "k = nat (- e)"
  have e0: "e \<le> 0" using ilog2_le [OF npos assms(2,3,4)] by (simp add: e_def)
  then have ek: "e = - int k" by (simp add: k_def)
  define m where "m = round_half_even (n * 2 ^ k) d"
  have m_alt: "(if 0 \<le> e then round_half_even n (d * 2 ^ nat e)
                else round_half_even (n * 2 ^ nat (- e)) d) = m"
    using e0 by (auto simp: m_def k_def)
  have "round_ratio n d =
          mk_float (sgn n * (if 0 \<le> e then round_half_even n (d * 2 ^ nat e)
                             else round_half_even (n * 2 ^ nat (- e)) d)) e"
    by (simp only: round_ratio_def Let_def False if_False abs_of_pos [OF npos] e_def)
  then have rr: "round_ratio n d = mk_float m e"
    using npos by (simp only: m_alt sgn_pos mult_1)
  have "n * 2 ^ k \<le> (B * 2 ^ k) * d" using assms(3) by (simp add: mult.commute mult.left_commute)
  with round_half_even_bounds [of "n * 2 ^ k" d "B * 2 ^ k"] assms(1,2)
  have mb: "0 \<le> m" "m \<le> B * 2 ^ k" by (simp_all add: m_def)
  have fin: "is_fin (mk_float m e)" using e0 by (intro mk_float_fin) simp
  have val: "fval (mk_float m e) = of_int m / 2 ^ k"
    using mk_float_val [OF fin] by (simp add: ek power_int_minus field_simps)
  have "(of_int m :: rat) \<le> of_int (B * 2 ^ k)" using mb(2) by (simp only: of_int_le_iff)
  then have "(of_int m :: rat) / 2 ^ k \<le> of_int B" by (simp add: field_simps)
  moreover have "0 \<le> (of_int m :: rat) / 2 ^ k" using mb(1) by simp
  ultimately show ?thesis using fin val rr by simp
qed

lemma int_truediv_bounded:
  assumes "0 \<le> a" "a \<le> b" "0 < b"
  shows "\<exists>q. int_truediv a b = Inr q \<and> is_fin q \<and> 0 \<le> fval q \<and> fval q \<le> 1"
proof -
  have "is_fin (round_ratio a b) \<and> 0 \<le> fval (round_ratio a b) \<and> fval (round_ratio a b) \<le> of_int 1"
    using assms by (intro round_ratio_bounded) simp_all
  then show ?thesis using assms(3) by (simp add: int_truediv_def no_overflow_def)
qed

lemma round_dyadic_bounded:
  assumes "0 \<le> m" "of_int m * 2 powi e \<le> (of_int B :: rat)" "B < 2 ^ 53"
  shows "is_fin (round_dyadic m e) \<and> 0 \<le> fval (round_dyadic m e) \<and> fval (round_dyadic m e) \<le> of_int B"
proof (cases "0 \<le> e")
  case True
  then have "(2::rat) powi e = 2 ^ nat e" by (simp add: power_int_def)
  with assms(2) have "(of_int (m * 2 ^ nat e) :: rat) \<le> of_int B" by simp
  then have "m * 2 ^ nat e \<le> B * 1" by (simp only: of_int_le_iff mult_1_right)
  with round_ratio_bounded [of "m * 2 ^ nat e" 1 B] assms(1,3) True show ?thesis
    by (simp add: round_dyadic_def)
next
  case False
  then have "(2::rat) powi e = 1 / 2 ^ nat (- e)" by (simp add: power_int_def field_simps)
  with assms(2) have "(of_int m :: rat) \<le> of_int (B * 2 ^ nat (- e))" by (simp add: field_simps)
  then have "m \<le> B * 2 ^ nat (- e)" by (simp only: of_int_le_iff)
  with round_ratio_bounded [of m "2 ^ nat (- e)" B] assms(1,3) False show ?thesis
    by (simp add: round_dyadic_def)
qed

lemma float_of_int_100: "float_of_int 100 = Inr (Fin 7036874417766400 (- 46))"
  by code_simp

lemma fmul_100_bounded:
  assumes "is_fin q" "0 \<le> fval q" "fval q \<le> 1"
  shows "is_fin (fmul q (Fin 7036874417766400 (- 46)))
       \<and> 0 \<le> fval (fmul q (Fin 7036874417766400 (- 46)))
       \<and> fval (fmul q (Fin 7036874417766400 (- 46))) \<le> 100"
proof -
  from assms(1) obtain m e where q: "q = Fin m e" by (cases q) auto
  have pos: "(0::rat) < 2 powi e" by simp
  from assms(2) have m0: "0 \<le> m" unfolding q fval_Fin using pos
    by (simp add: zero_le_mult_iff)
  have "(2::rat) powi (e + - 46) = 2 powi e * 2 powi (- 46)"
    by (rule power_int_add) simp
  also have "(2::rat) powi (- 46) = 1 / 70368744177664"
    by (simp add: power_int_minus)
  finally have "(of_int (m * 7036874417766400) :: rat) * 2 powi (e + - 46) = (of_int m * 2 powi e) * 100"
    by simp
  also have "\<dots> \<le> of_int 100" using assms(3) unfolding q fval_Fin by simp
  finally have "(of_int (m * 7036874417766400) :: rat) * 2 powi (e + - 46) \<le> of_int 100" .
  with round_dyadic_bounded [of "m * 7036874417766400" "e + - 46" 100] m0
  show ?thesis by (simp add: q)
qed

section \<open>The order on floats, minimum and maximum\<close>

lemma align_pow:
  assumes "e \<le> e1"
  shows "(2::rat) powi e1 = 2 ^ nat (e1 - e) * 2 powi e"
proof -
  have "(2::rat) powi ((e1 - e) + e) = 2 powi (e1 - e) * 2 powi e"
    by (rule power_int_add) simp
  moreover have "(2::rat) powi (e1 - e) = 2 ^ nat (e1 - e)"
    using assms by (simp add: power_int_def)
  ultimately show ?thesis by simp
qed

lemma aligned_val:
  assumes "e \<le> e1"
  shows "(of_int m * 2 powi e1 :: rat) = of_int (m * 2 ^ nat (e1 - e)) * 2 powi e"
  by (simp add: align_pow [OF assms])

lemma fle_Fin: "fle (Fin m1 e1) (Fin m2 e2) \<longleftrightarrow> fval (Fin m1 e1) \<le> fval (Fin m2 e2)"
proof -
  define e where "e = min e1 e2"
  have le: "e \<le> e1" "e \<le> e2" by (simp_all add: e_def)
  have pos: "(0::rat) < 2 powi e" by simp
  have "fval (Fin m1 e1) \<le> fval (Fin m2 e2) \<longleftrightarrow>
        (of_int (m1 * 2 ^ nat (e1 - e)) :: rat) * 2 powi e \<le> of_int (m2 * 2 ^ nat (e2 - e)) * 2 powi e"
    by (simp only: fval_Fin aligned_val [OF le(1)] aligned_val [OF le(2)])
  also have "\<dots> \<longleftrightarrow> (of_int (m1 * 2 ^ nat (e1 - e)) :: rat) \<le> of_int (m2 * 2 ^ nat (e2 - e))"
    using pos by (simp only: mult_le_cancel_right_pos)
  also have "\<dots> \<longleftrightarrow> m1 * 2 ^ nat (e1 - e) \<le> m2 * 2 ^ nat (e2 - e)"
    by (simp only: of_int_le_iff)
  finally show ?thesis by (simp add: Let_def e_def)
qed

lemma flt_Fin: "flt (Fin m1 e1) (Fin m2 e2) \<longleftrightarrow> fval (Fin m1 e1) < fval (Fin m2 e2)"
proof -
  define e where "e = min e1 e2"
  have le: "e \<le> e1" "e \<le> e2" by (simp_all add: e_def)
  have pos: "(0::rat) < 2 powi e" by simp
  have "fval (Fin m1 e1) < fval (Fin m2 e2) \<longleftrightarrow>
        (of_int (m1 * 2 ^ nat (e1 - e)) :: rat) * 2 powi e < of_int (m2 * 2 ^ nat (e2 - e)) * 2 powi e"
    by (simp only: fval_Fin aligned_val [OF le(1)] aligned_val [OF le(2)])
  also have "\<dots> \<longleftrightarrow> (of_int (m1 * 2 ^ nat (e1 - e)) :: rat) < of_int (m2 * 2 ^ nat (e2 - e))"
    using pos by (simp only: mult_less_cancel_right_pos)
  also have "\<dots> \<longleftrightarrow> m1 * 2 ^ nat (e1 - e) < m2 * 2 ^ nat (e2 - e)"
    by (simp only: of_int_less_iff)
  finally show ?thesis by (simp add: Let_def e_def)
qed

lemma fle_trans: "fle a b \<Longrightarrow> fle b c \<Longrightarrow> fle a c"
  by (cases a; cases b; cases c) (auto simp: fle_Fin simp del: fle.simps(1))

lemma fle_refl: "a \<noteq> NaN \<Longrightarrow> fle a a"
  by (cases a) (auto simp: fle_Fin simp del: fle.simps(1))

lemma flt_imp_fle: "flt a b \<Longrightarrow> fle a b"
  by (cases a; cases b) (auto simp: fle_Fin flt_Fin simp del: fle.simps(1) flt.simps(1))

lemma not_flt_imp_fle: "a \<noteq> NaN \<Longrightarrow> b \<noteq> NaN \<Longrightarrow> \<not> flt a b \<Longrightarrow> fle b a"
  by (cases a; cases b) (auto simp: fle_Fin flt_Fin simp del: fle.simps(1) flt.simps(1))

lemma foldl_min:
  assumes "b \<noteq> NaN" "NaN \<notin> set r"
  shows "foldl (\<lambda>b y. if flt y b then y else b) b r \<in> set (b # r)
       \<and> (\<forall>x\<in>set (b # r). fle (foldl (\<lambda>b y. if flt y b then y else b) b r) x)"
  using assms
proof (induction r arbitrary: b)
  case Nil
  then show ?case by (simp add: fle_refl)
next
  case (Cons y r)
  let ?f = "\<lambda>b y. if flt y b then y else b"
  define b' where "b' = (if flt y b then y else b)"
  have b'n: "b' \<noteq> NaN" using Cons.prems by (auto simp: b'_def)
  have rn: "NaN \<notin> set r" using Cons.prems by simp
  have yn: "y \<noteq> NaN" using Cons.prems by auto
  from Cons.IH [OF b'n rn] have
    mem: "foldl ?f b' r \<in> set (b' # r)" and
    low: "\<forall>x\<in>set (b' # r). fle (foldl ?f b' r) x" by blast+
  have b'b: "fle b' b" and b'y: "fle b' y"
    using flt_imp_fle [of y b] not_flt_imp_fle [of y b] fle_refl Cons.prems(1) yn
    by (auto simp: b'_def)
  from low have mb': "fle (foldl ?f b' r) b'" by simp
  have "fle (foldl ?f b' r) b" "fle (foldl ?f b' r) y"
    using fle_trans [OF mb' b'b] fle_trans [OF mb' b'y] by blast+
  moreover have "foldl ?f b' r \<in> set (b # y # r)" using mem by (auto simp: b'_def split: if_splits)
  ultimately show ?case using low by (simp add: b'_def)
qed

lemma foldl_max:
  assumes "b \<noteq> NaN" "NaN \<notin> set r"
  shows "foldl (\<lambda>b y. if flt b y then y else b) b r \<in> set (b # r)
       \<and> (\<forall>x\<in>set (b # r). fle x (foldl (\<lambda>b y. if flt b y then y else b) b r))"
  using assms
proof (induction r arbitrary: b)
  case Nil
  then show ?case by (simp add: fle_refl)
next
  case (Cons y r)
  let ?f = "\<lambda>b y. if flt b y then y else b"
  define b' where "b' = (if flt b y then y else b)"
  have b'n: "b' \<noteq> NaN" using Cons.prems by (auto simp: b'_def)
  have rn: "NaN \<notin> set r" using Cons.prems by simp
  have yn: "y \<noteq> NaN" using Cons.prems by auto
  from Cons.IH [OF b'n rn] have
    mem: "foldl ?f b' r \<in> set (b' # r)" and
    up: "\<forall>x\<in>set (b' # r). fle x (foldl ?f b' r)" by blast+
  have b'b: "fle b b'" and b'y: "fle y b'"
    using flt_imp_fle [of b y] not_flt_imp_fle [of b y] fle_refl Cons.prems(1) yn
    by (auto simp: b'_def)
  from up have mb': "fle b' (foldl ?f b' r)" by simp
  have "fle b (foldl ?f b' r)" "fle y (foldl ?f b' r)"
    using fle_trans [OF b'b mb'] fle_trans [OF b'y mb'] by blast+
  moreover have "foldl ?f b' r \<in> set (b # y # r)" using mem by (auto simp: b'_def split: if_splits)
  ultimately show ?case using up by (simp add: b'_def)
qed

lemma py_min_least:
  assumes "xs \<noteq> []" "NaN \<notin> set xs"
  shows "\<exists>m. py_min xs = Inr m \<and> is_least m xs"
proof -
  from assms(1) obtain b r where xs: "xs = b # r" by (cases xs) auto
  with assms(2) have "b \<noteq> NaN" "NaN \<notin> set r" by auto
  from foldl_min [OF this] xs show ?thesis
    by (simp add: py_min_def is_least_def list_all_iff)
qed

lemma py_max_greatest:
  assumes "xs \<noteq> []" "NaN \<notin> set xs"
  shows "\<exists>m. py_max xs = Inr m \<and> is_greatest m xs"
proof -
  from assms(1) obtain b r where xs: "xs = b # r" by (cases xs) auto
  with assms(2) have "b \<noteq> NaN" "NaN \<notin> set r" by auto
  from foldl_max [OF this] xs show ?thesis
    by (simp add: py_max_def is_greatest_def list_all_iff)
qed

lemma mk_float_not_nan: "mk_float m e \<noteq> NaN"
  by (simp add: mk_float_def Let_def fzero_def)

lemma round_ratio_not_nan: "round_ratio n d \<noteq> NaN"
  by (simp add: round_ratio_def Let_def mk_float_not_nan fzero_def)

lemma py_float_not_nan: "py_float s \<noteq> NaN"
  by (simp add: py_float_def Let_def round_ratio_not_nan)

lemma sample_times_not_nan: "NaN \<notin> set (sample_times lines)"
proof -
  have "\<forall>x\<in>set (sample_times lines). x \<noteq> NaN"
    by (simp add: sample_times_def py_float_not_nan)
  then show ?thesis by blast
qed

lemma timestamp_values_not_nan: "NaN \<notin> set (timestamp_values lines)"
proof -
  have "\<forall>x\<in>set (timestamp_values lines). x \<noteq> NaN"
    by (simp add: timestamp_values_def py_float_not_nan)
  then show ?thesis by blast
qed

section \<open>The loop over the lines\<close>

lemma sample_times_Cons:
  "sample_times (l # ls) =
     (if is_sample_line l then [py_float (the (re_search match_time l))] else []) @ sample_times ls"
  by (simp add: sample_times_def)

lemma raw_probe_count_Cons:
  "raw_probe_count (l # ls) = (if contains ''icmp_seq='' l then 1 else 0) + raw_probe_count ls"
  by (simp add: raw_probe_count_def)

lemma timestamp_values_Cons:
  "timestamp_values (l # ls) =
     (if has_ts_prefix l then [py_float (the (match_ts l))] else []) @ timestamp_values ls"
  by (simp add: timestamp_values_def)

lemma loop_step_skip:
  assumes "\<not> nonblank l"
  shows "\<not> contains ''icmp_seq='' l \<and> \<not> is_sample_line l \<and> \<not> has_ts_prefix l"
proof -
  have 1: "\<not> contains ''icmp_seq='' l"
    using assms contains_nonblank by blast
  have 2: "re_search match_seq l = None"
  proof (cases "re_search match_seq l")
    case (Some g)
    with search_seq_contains 1 show ?thesis by blast
  qed simp
  have 3: "match_ts l = None"
  proof (cases "match_ts l")
    case (Some g)
    with match_ts_nonblank assms show ?thesis by blast
  qed simp
  from 1 2 3 show ?thesis by (simp add: is_sample_line_def has_ts_prefix_def)
qed

lemma loop_step_Inr:
  assumes "loop_step env h st l = Inr st'"
  shows "ping_times st' = ping_times st @ sample_times [l]
       \<and> total_pings st' = total_pings st + raw_probe_count [l]
       \<and> timestamps st' = timestamps st @ (if h then timestamp_values [l] else [])"
proof (cases "nonblank l")
  case False
  with assms have "st' = st" by (simp add: loop_step_def)
  with loop_step_skip [OF False] show ?thesis
    by (simp add: sample_times_Cons raw_probe_count_Cons timestamp_values_Cons sample_times_def
        raw_probe_count_def timestamp_values_def)
next
  case True
  with assms show ?thesis
    by (auto simp: loop_step_def Let_def bindE_def sample_times_def raw_probe_count_def
        timestamp_values_def is_sample_line_def has_ts_prefix_def
        split: option.splits sum.splits if_splits)
qed

lemma run_loop_Inr:
  "run_loop env h st ls = Inr st' \<Longrightarrow>
     ping_times st' = ping_times st @ sample_times ls
   \<and> total_pings st' = total_pings st + raw_probe_count ls
   \<and> timestamps st' = timestamps st @ (if h then timestamp_values ls else [])"
proof (induction ls arbitrary: st)
  case Nil
  then show ?case by (simp add: sample_times_def raw_probe_count_def timestamp_values_def)
next
  case (Cons l ls)
  from Cons.prems obtain st1 where s1: "loop_step env h st l = Inr st1"
    and r: "run_loop env h st1 ls = Inr st'"
    by (cases "loop_step env h st l") auto
  from loop_step_Inr [OF s1] Cons.IH [OF r] show ?case
    by (simp add: sample_times_Cons raw_probe_count_Cons timestamp_values_Cons sample_times_def
        raw_probe_count_def timestamp_values_def)
qed

section \<open>The analysis in terms of the lines\<close>

lemma detect_timestamps_iff: "detect_timestamps lines \<longleftrightarrow> timestamp_values lines \<noteq> []"
proof -
  have "detect_timestamps lines \<longleftrightarrow> (\<exists>l\<in>set lines. nonblank l \<and> match_ts l \<noteq> None)"
    by (auto simp: detect_timestamps_def list_ex_iff)
  also have "\<dots> \<longleftrightarrow> (\<exists>l\<in>set lines. has_ts_prefix l)"
    using match_ts_nonblank by (auto simp: has_ts_prefix_def)
  also have "\<dots> \<longleftrightarrow> timestamp_values lines \<noteq> []"
    by (simp add: timestamp_values_def filter_empty_conv)
  finally show ?thesis .
qed

lemma bindE_Inr: "bindE x f = Inr y \<longleftrightarrow> (\<exists>v. x = Inr v \<and> f v = Inr y)"
  by (cases x) (simp_all add: bindE_def)

lemma analyze_lines_Inr:
  assumes "analyze_lines env lines = Inr r"
  shows "calc_stats env (sample_times lines) (raw_probe_count lines) = Inr (stats r)"
    and "calc_time_range env (timestamp_values lines) = Inr (time_range r)"
    and "target r = parse_target lines"
    and "has_timestamps r = detect_timestamps lines"
proof -
  from assms obtain st s tr where
    loop: "run_loop env (detect_timestamps lines) init_state lines = Inr st"
    and st: "calc_stats env (ping_times st) (total_pings st) = Inr s"
    and tr: "calc_time_range env (timestamps st) = Inr tr"
    and r: "r = \<lparr>target = parse_target lines, stats = s, time_range = tr,
                   has_timestamps = detect_timestamps lines\<rparr>"
    unfolding analyze_lines_def Let_def bindE_Inr by blast
  from run_loop_Inr [OF loop] have
    pt: "ping_times st = sample_times lines" and tp: "total_pings st = raw_probe_count lines"
    and ts: "timestamps st = (if detect_timestamps lines then timestamp_values lines else [])"
    by (simp_all add: init_state_def)
  have ts': "timestamps st = timestamp_values lines"
    using ts detect_timestamps_iff [of lines] by auto
  show "calc_stats env (sample_times lines) (raw_probe_count lines) = Inr (stats r)"
    using st pt tp r by simp
  show "calc_time_range env (timestamp_values lines) = Inr (time_range r)"
    using tr ts' r by simp
  show "target r = parse_target lines" using r by simp
  show "has_timestamps r = detect_timestamps lines" using r by simp
qed

lemma calc_stats_Inr:
  assumes "calc_stats env xs t = Inr s"
  shows "stat_total_pings s = t"
    and "(if xs \<noteq> [] then py_min xs else Inr fzero) = Inr (min_time s)"
    and "(if xs \<noteq> [] then py_max xs else Inr fzero) = Inr (max_time s)"
    and "(if xs \<noteq> [] then mean env xs else Inr fzero) = Inr (avg_time s)"
    and "(if xs \<noteq> [] then mean env (map (\<lambda>x. fabs (fsub x (avg_time s))) xs) else Inr fzero)
           = Inr (mdev s)"
    and "(if 0 < t then packet_loss_of t (length xs) else Inr fzero) = Inr (packet_loss s)"
proof -
  from assms obtain mn mx av md pl where
    1: "(if xs \<noteq> [] then py_min xs else Inr fzero) = Inr mn"
    and 2: "(if xs \<noteq> [] then py_max xs else Inr fzero) = Inr mx"
    and 3: "(if xs \<noteq> [] then mean env xs else Inr fzero) = Inr av"
    and 4: "(if xs \<noteq> [] then mean env (map (\<lambda>x. fabs (fsub x av)) xs) else Inr fzero) = Inr md"
    and 5: "(if 0 < t then packet_loss_of t (length xs) else Inr fzero) = Inr pl"
    and s: "s = \<lparr>min_time = mn, max_time = mx, avg_time = av, mdev = md,
                   stat_total_pings = t, packet_loss = pl\<rparr>"
    unfolding calc_stats_def bindE_Inr by blast
  show "stat_total_pings s = t" using s by simp
  show "(if xs \<noteq> [] then py_min xs else Inr fzero) = Inr (min_time s)" using 1 s by simp
  show "(if xs \<noteq> [] then py_max xs else Inr fzero) = Inr (max_time s)" using 2 s by simp
  show "(if xs \<noteq> [] then mean env xs else Inr fzero) = Inr (avg_time s)" using 3 s by simp
  show "(if xs \<noteq> [] then mean env (map (\<lambda>x. fabs (fsub x (avg_time s))) xs) else Inr fzero)
           = Inr (mdev s)" using 4 unfolding s by (auto split: if_splits)
  show "(if 0 < t then packet_loss_of t (length xs) else Inr fzero) = Inr (packet_loss s)"
    using 5 s by simp
qed

lemma sample_line_has_marker: "is_sample_line l \<Longrightarrow> contains ''icmp_seq='' l"
  using search_seq_contains [of l] by (auto simp: is_sample_line_def)

lemma sample_count_le: "sample_count lines \<le> raw_probe_count lines"
proof (induction lines)
  case Nil
  show ?case by (simp add: sample_count_def raw_probe_count_def)
next
  case (Cons l ls)
  then show ?case using sample_line_has_marker [of l]
    by (auto simp: sample_count_def raw_probe_count_def)
qed

lemma length_sample_times: "length (sample_times lines) = sample_count lines"
  by (simp add: sample_times_def sample_count_def)

section \<open>The empty file\<close>

text \<open>
  Claim C8.  For a readable file with no lines the analysis succeeds and yields the target
  with ip \<open>Unknown\<close> and no hostname, all six statistics zero, no time range and
  \<open>has_timestamps = False\<close>; nothing is printed on the error stream.
\<close>

theorem empty_file_analysis:
  assumes "read_lines env filename = Inr []"
  shows "analyze_ping_file env filename =
           Inr (Some \<lparr>target = \<lparr>ip = ''Unknown'', hostname = None\<rparr>,
                       stats = \<lparr>min_time = fzero, max_time = fzero, avg_time = fzero,
                                 mdev = fzero, stat_total_pings = 0, packet_loss = fzero\<rparr>,
                       time_range = None, has_timestamps = False\<rparr>, [])"
  using assms
  by (simp add: analyze_ping_file_def analyze_lines_def parse_target_def target_default_def
      detect_timestamps_def init_state_def calc_stats_def calc_time_range_def bindE_def)

theorem empty_file_analysis_witness:
  "read_lines sample_env ''empty.txt'' = Inr [] \<and>
   analyze_ping_file sample_env ''empty.txt'' =
     Inr (Some \<lparr>target = \<lparr>ip = ''Unknown'', hostname = None\<rparr>,
                 stats = \<lparr>min_time = fzero, max_time = fzero, avg_time = fzero,
                           mdev = fzero, stat_total_pings = 0, packet_loss = fzero\<rparr>,
                 time_range = None, has_timestamps = False\<rparr>, [])"
proof -
  have h: "read_lines sample_env ''empty.txt'' = Inr []"
    by (simp add: sample_env_def sample_read_def sample_files_def)
  show ?thesis
    using h empty_file_analysis [OF h] by simp
qed

section \<open>Concrete analyses\<close>

lemma b_log_analysis: "analyze_lines sample_env b_log_lines = Inr b_log_result"
  by code_simp


lemma b_log_samples:
  "sample_times b_log_lines =
     [Fin 7205759403792794 (- 56), Fin 7205759403792794 (- 56), Fin 7205759403792794 (- 56)]"
  by code_simp

lemma b_log_timestamps:
  "timestamp_values b_log_lines =
     [Fin 7130316802097152 (- 22), Fin 7130316806291456 (- 22),
      Fin 7130316810485760 (- 22), Fin 7130316814680064 (- 22)]"
  by code_simp

lemma fle_fval: "is_fin a \<Longrightarrow> is_fin b \<Longrightarrow> fle a b \<Longrightarrow> fval a \<le> fval b"
  by (cases a; cases b) (simp_all only: fle_Fin is_fin.simps)

lemma sum_list_lower:
  assumes "is_fin m" "\<forall>x\<in>set xs. is_fin x \<and> fle m x"
  shows "fval m * of_nat (length xs) \<le> sum_list (map fval xs)"
  using assms(2)
proof (induction xs)
  case Nil
  show ?case by simp
next
  case (Cons x xs)
  then have "fval m \<le> fval x" using assms(1) by (simp add: fle_fval)
  moreover from Cons have "fval m * of_nat (length xs) \<le> sum_list (map fval xs)" by simp
  ultimately show ?case by (simp add: algebra_simps)
qed

lemma sum_list_upper:
  assumes "is_fin m" "\<forall>x\<in>set xs. is_fin x \<and> fle x m"
  shows "sum_list (map fval xs) \<le> fval m * of_nat (length xs)"
  using assms(2)
proof (induction xs)
  case Nil
  show ?case by simp
next
  case (Cons x xs)
  then have "fval x \<le> fval m" using assms(1) by (simp add: fle_fval)
  moreover from Cons have "sum_list (map fval xs) \<le> fval m * of_nat (length xs)" by simp
  ultimately show ?case by (simp add: algebra_simps)
qed

lemma analyzed_min_max:
  assumes "analyze_lines env lines = Inr r" and "sample_times lines \<noteq> []"
  shows "is_least (min_time (stats r)) (sample_times lines)"
    and "is_greatest (max_time (stats r)) (sample_times lines)"
proof -
  note cs = calc_stats_Inr [OF analyze_lines_Inr(1) [OF assms(1)]]
  from py_min_least [OF assms(2) sample_times_not_nan] cs(2) assms(2)
  show "is_least (min_time (stats r)) (sample_times lines)" by auto
  from py_max_greatest [OF assms(2) sample_times_not_nan] cs(3) assms(2)
  show "is_greatest (max_time (stats r)) (sample_times lines)" by auto
qed

section \<open>Packet loss\<close>



text \<open>
  Claim C4.  Every line that contributes a sample contains \<open>icmp_seq=\<close>, so the number of
  samples never exceeds the raw probe counter; the packet loss is exactly 0 when the total
  is 0 and otherwise a finite float between 0 and 100.
\<close>

theorem packet_loss_range:
  assumes "analyze_lines env lines = Inr r"
  shows "list_all (contains ''icmp_seq='') (filter is_sample_line lines) \<and>
         sample_count lines \<le> raw_probe_count lines \<and>
         (if stat_total_pings (stats r) = 0 then packet_loss (stats r) = fzero
          else is_fin (packet_loss (stats r)) \<and> 0 \<le> fval (packet_loss (stats r))
               \<and> fval (packet_loss (stats r)) \<le> 100)"
proof -
  note cs = calc_stats_Inr [OF analyze_lines_Inr(1) [OF assms]]
  let ?t = "raw_probe_count lines" and ?n = "sample_count lines"
  have 1: "list_all (contains ''icmp_seq='') (filter is_sample_line lines)"
    by (simp add: list_all_iff sample_line_has_marker)
  have 2: "?n \<le> ?t" by (rule sample_count_le)
  have 3: "is_fin (packet_loss (stats r)) \<and> 0 \<le> fval (packet_loss (stats r))
           \<and> fval (packet_loss (stats r)) \<le> 100" if pos: "0 < ?t"
  proof -
    from cs(6) pos have "packet_loss_of ?t ?n = Inr (packet_loss (stats r))"
      by (simp add: length_sample_times)
    then obtain q where q: "int_truediv (int ?t - int ?n) (int ?t) = Inr q"
      and pl: "packet_loss (stats r) = fmul q (Fin 7036874417766400 (- 46))"
      unfolding packet_loss_of_def bindE_Inr float_of_int_100 by auto
    from int_truediv_bounded [of "int ?t - int ?n" "int ?t"] 2 pos q
    have "is_fin q \<and> 0 \<le> fval q \<and> fval q \<le> 1" by auto
    then show ?thesis unfolding pl by (intro fmul_100_bounded) simp_all
  qed
  show ?thesis
  proof (cases "?t = 0")
    case True
    with cs(1,6) 1 2 show ?thesis by simp
  next
    case False
    with cs(1) 1 2 3 show ?thesis by simp
  qed
qed

theorem packet_loss_range_witness:
  "analyze_lines sample_env b_log_lines = Inr b_log_result \<and>
   sample_count b_log_lines \<le> raw_probe_count b_log_lines \<and>
   stat_total_pings (stats b_log_result) = 4 \<and>
   is_fin (packet_loss (stats b_log_result)) \<and>
   0 \<le> fval (packet_loss (stats b_log_result)) \<and>
   fval (packet_loss (stats b_log_result)) \<le> 100"
proof -
  have "stat_total_pings (stats b_log_result) = 4" by (simp add: b_log_result_def)
  with packet_loss_range [OF b_log_analysis] b_log_analysis show ?thesis by simp
qed

section \<open>The accuracy of rounding\<close>

lemma ilog2_bounds:
  assumes "0 < n" "0 < d"
  shows "(2::rat) powi (ilog2 n d) \<le> of_int n / of_int d
       \<and> (of_int n / of_int d :: rat) < 2 powi (ilog2 n d + 1)"
proof (cases "d \<le> n")
  case True
  define q where "q = n div d"
  define l where "l = nat (bitlen q - 1)"
  have "d div d \<le> n div d" using True assms(2) by (intro zdiv_mono1) simp_all
  then have q1: "1 \<le> q" using assms(2) by (simp add: q_def)
  then have q0: "0 < q" by simp
  from bitlen_bounds [OF q0] have lo: "2 ^ l \<le> q" and hi: "q < 2 ^ nat (bitlen q)"
    by (simp_all add: l_def)
  have bl: "1 \<le> bitlen q" using q0 bitlen_eq_zero_iff [of q] bitlen_nonneg [of q] by linarith
  then have lb: "int l = bitlen q - 1" and lb1: "nat (bitlen q) = Suc l"
    by (simp_all add: l_def)
  have il: "ilog2 n d = int l" using True by (simp add: ilog2_def q_def lb)
  define r where "r = n mod d"
  have n_eq: "n = q * d + r" by (simp add: q_def r_def)
  have r0: "0 \<le> r" and rd: "r < d" using assms(2) by (simp_all add: r_def)
  have qd: "q * d \<le> n" using n_eq r0 by linarith
  have qd1: "(q + 1) * d = q * d + d" by (simp add: algebra_simps)
  from hi lb1 have "q + 1 \<le> 2 ^ Suc l" by simp
  then have "(q + 1) * d \<le> 2 ^ Suc l * d" using assms(2) by (intro mult_right_mono) simp_all
  with qd1 n_eq rd have nd: "n < 2 ^ Suc l * d" by linarith
  from lo have "2 ^ l * d \<le> q * d" using assms(2) by (intro mult_right_mono) simp_all
  with qd have "2 ^ l * d \<le> n" by linarith
  then have "(of_int (2 ^ l * d) :: rat) \<le> of_int n" by (simp only: of_int_le_iff)
  then have 1: "(2::rat) ^ l \<le> of_int n / of_int d"
    using assms(2) by (simp add: pos_le_divide_eq)
  from nd have "(of_int n :: rat) < of_int (2 ^ Suc l * d)" by (simp only: of_int_less_iff)
  then have 2: "(of_int n / of_int d :: rat) < 2 ^ Suc l"
    using assms(2) by (simp add: pos_divide_less_eq)
  have "(2::rat) powi (int l) = 2 ^ l" "(2::rat) powi (int l + 1) = 2 ^ Suc l"
    by (simp_all add: power_int_def nat_add_distrib)
  with 1 2 show ?thesis by (simp only: il)
next
  case False
  define c where "c = (d + n - 1) div n"
  define k where "k = nat (bitlen (c - 1))"
  define r where "r = (d + n - 1) mod n"
  have c_eq: "d + n - 1 = c * n + r" by (simp add: c_def r_def)
  have r0: "0 \<le> r" and rn: "r < n" using assms(1) by (simp_all add: r_def)
  have cn: "d \<le> c * n" using c_eq rn by linarith
  have c1n: "(c - 1) * n = c * n - n" by (simp add: algebra_simps)
  have cn1: "(c - 1) * n < d" using c_eq r0 c1n by linarith
  have c2: "2 \<le> c"
  proof (rule ccontr)
    assume "\<not> 2 \<le> c"
    then have "c * n \<le> 1 * n" using assms(1) by (intro mult_right_mono) simp_all
    with cn False show False by simp
  qed
  then have c0: "0 < c - 1" by simp
  from bitlen_bounds [OF c0] have lo: "2 ^ nat (bitlen (c - 1) - 1) \<le> c - 1"
    and hi: "c - 1 < 2 ^ k" by (simp_all add: k_def)
  have bl: "1 \<le> bitlen (c - 1)"
    using c0 bitlen_eq_zero_iff [of "c - 1"] bitlen_nonneg [of "c - 1"] by linarith
  then obtain k' where k': "k = Suc k'" "nat (bitlen (c - 1) - 1) = k'"
    by (cases k) (simp_all add: k_def nat_diff_distrib)
  have il: "ilog2 n d = - int k" using False bl by (simp add: ilog2_def c_def k_def)
  from hi have "c \<le> 2 ^ k" by simp
  then have "c * n \<le> 2 ^ k * n" using assms(1) by (intro mult_right_mono) simp_all
  with cn have "d \<le> 2 ^ k * n" by simp
  then have "(of_int d :: rat) \<le> of_int (2 ^ k * n)" by (simp only: of_int_le_iff)
  then have 1: "1 / (2::rat) ^ k \<le> of_int n / of_int d"
    using assms by (simp add: field_simps)
  from lo k' have "2 ^ k' * n \<le> (c - 1) * n" using assms(1) by (intro mult_right_mono) simp_all
  with cn1 have "2 ^ k' * n < d" by simp
  then have "(of_int (2 ^ k' * n) :: rat) < of_int d" by (simp only: of_int_less_iff)
  then have 2: "(of_int n / of_int d :: rat) < 1 / 2 ^ k'"
    using assms by (simp add: field_simps)
  have "(2::rat) powi (- int k) = 1 / 2 ^ k"
    by (simp add: power_int_def field_simps)
  moreover have "(2::rat) powi (- int k + 1) = 1 / 2 ^ k'"
    using k'(1) by (simp add: power_int_def field_simps)
  ultimately show ?thesis using 1 2 by (simp only: il)
qed

lemma round_half_even_error:
  assumes "0 < d"
  shows "\<bar>of_int (round_half_even n d) - (of_int n / of_int d :: rat)\<bar> \<le> 1 / 2"
proof -
  define q where "q = n div d"
  define r where "r = n mod d"
  have n_eq: "n = q * d + r" by (simp add: q_def r_def)
  have r0: "0 \<le> r" and rd: "r < d" using assms by (simp_all add: r_def)
  have nd: "(of_int n / of_int d :: rat) = of_int q + of_int r / of_int d"
    using assms by (simp add: n_eq field_simps)
  have dpos: "(0::rat) < of_int d" using assms by simp
  have half: "2 * r < d \<longleftrightarrow> (of_int r / of_int d :: rat) < 1 / 2"
    using dpos by (simp add: field_simps) (metis of_int_less_iff of_int_mult of_int_numeral mult.commute)
  have half': "d < 2 * r \<longleftrightarrow> (1 / 2 :: rat) < of_int r / of_int d"
    using dpos by (simp add: field_simps) (metis of_int_less_iff of_int_mult of_int_numeral mult.commute)
  have f0: "(0::rat) \<le> of_int r / of_int d" using r0 dpos by simp
  have f1: "(of_int r / of_int d :: rat) < 1" using rd dpos by simp
  show ?thesis
    unfolding round_half_even_def Let_def q_def [symmetric] r_def [symmetric] nd
    using half half' f0 f1 by (auto simp: abs_if)
qed

lemma scaled_rounding:
  assumes "0 < a" "0 < d"
    and e: "e = max (ilog2 a d - 52) (- 1074)"
    and m: "m = (if 0 \<le> e then round_half_even a (d * 2 ^ nat e)
                 else round_half_even (a * 2 ^ nat (- e)) d)"
  shows "\<bar>of_int m - (of_int a / of_int d) / 2 powi e\<bar> \<le> (1 / 2 :: rat)"
    and "0 \<le> m" and "m \<le> 2 ^ 53"
proof -
  let ?x = "(of_int a / of_int d) / (2::rat) powi e"
  show err: "\<bar>of_int m - ?x\<bar> \<le> 1 / 2"
  proof (cases "0 \<le> e")
    case True
    then have p: "(2::rat) powi e = 2 ^ nat e" by (simp add: power_int_def)
    have "0 < d * 2 ^ nat e" using assms(2) by simp
    from round_half_even_error [OF this, of a] True show ?thesis
      by (simp add: m p)
  next
    case False
    then have p: "(2::rat) powi e = 1 / 2 ^ nat (- e)" by (simp add: power_int_def field_simps)
    from round_half_even_error [OF assms(2), of "a * 2 ^ nat (- e)"] False show ?thesis
      by (simp add: m p)
  qed
  have xpos: "0 \<le> ?x" using assms(1,2) by simp
  from err xpos have "(- 1 :: rat) < of_int m" by linarith
  then have "- 1 < m" by (metis of_int_less_iff of_int_minus of_int_1)
  then show "0 \<le> m" by simp
  have "ilog2 a d + 1 - e \<le> 53" by (simp add: e)
  then have pw: "(2::rat) powi (ilog2 a d + 1 - e) \<le> 2 powi 53"
    by (intro power_int_increasing) simp_all
  have "(2::rat) powi (ilog2 a d + 1 - e) = 2 powi (ilog2 a d + 1) / 2 powi e"
    by (rule power_int_diff) simp
  moreover have "?x < 2 powi (ilog2 a d + 1) / 2 powi e"
  proof -
    from ilog2_bounds [OF assms(1,2)]
    have "(of_int a / of_int d :: rat) < 2 powi (ilog2 a d + 1)" by blast
    then show ?thesis by (intro divide_strict_right_mono) simp_all
  qed
  ultimately have "?x < 2 powi 53" using pw by linarith
  with err have "(of_int m :: rat) < 2 powi 53 + 1" by linarith
  then have "(of_int m :: rat) < of_int (2 ^ 53 + 1)" by simp
  then have "m < 2 ^ 53 + 1" by (simp only: of_int_less_iff)
  then show "m \<le> 2 ^ 53" by simp
qed

lemma round_ratio_unfold:
  assumes "n \<noteq> 0"
  shows "round_ratio n d =
           mk_float (sgn n * (if 0 \<le> max (ilog2 \<bar>n\<bar> d - 52) (- 1074)
                              then round_half_even \<bar>n\<bar> (d * 2 ^ nat (max (ilog2 \<bar>n\<bar> d - 52) (- 1074)))
                              else round_half_even (\<bar>n\<bar> * 2 ^ nat (- max (ilog2 \<bar>n\<bar> d - 52) (- 1074))) d))
             (max (ilog2 \<bar>n\<bar> d - 52) (- 1074))"
  using assms by (simp only: round_ratio_def Let_def if_False)

text \<open>
  The result of rounding has at most 53 significant bits and an exponent in the range of the
  format, and, when finite, differs from the exact quotient by at most half a unit in the
  last place.
\<close>

lemma round_ratio_format:
  assumes "0 < d" "round_ratio n d = Fin m e"
  shows "\<bar>m\<bar> < 2 ^ 53 \<and> - 1074 \<le> e \<and> e \<le> 971"
proof (cases "n = 0")
  case True
  with assms(2) show ?thesis by (simp add: round_ratio_def fzero_def)
next
  case False
  define e0 where "e0 = max (ilog2 \<bar>n\<bar> d - 52) (- 1074)"
  define m0 where "m0 = (if 0 \<le> e0 then round_half_even \<bar>n\<bar> (d * 2 ^ nat e0)
                         else round_half_even (\<bar>n\<bar> * 2 ^ nat (- e0)) d)"
  from False have apos: "0 < \<bar>n\<bar>" by simp
  note sr = scaled_rounding [OF apos assms(1) e0_def m0_def]
  have rr: "round_ratio n d = mk_float (sgn n * m0) e0"
    using round_ratio_unfold [OF False] by (simp only: e0_def m0_def)
  have ab: "\<bar>sgn n * m0\<bar> = m0" using sr(2) False by (simp add: abs_mult)
  have e0lo: "- 1074 \<le> e0" by (simp add: e0_def)
  from assms(2) rr have mk: "mk_float (sgn n * m0) e0 = Fin m e" by simp
  show ?thesis
  proof (cases "m0 = 2 ^ 53")
    case True
    with mk ab have "m = (sgn n * m0) div 2" "e = e0 + 1" "e \<le> 971"
      by (auto simp: mk_float_def Let_def fzero_def split: if_splits)
    moreover from True False have "\<bar>(sgn n * m0) div 2\<bar> = 2 ^ 52"
      by (cases "0 < n") (simp_all add: sgn_if)
    ultimately show ?thesis using e0lo by simp
  next
    case ne: False
    with sr(3) have lt: "m0 < 2 ^ 53" by simp
    from mk ab ne have "(m = sgn n * m0 \<and> e = e0 \<and> e \<le> 971) \<or> (m = 0 \<and> e = 0)"
      by (auto simp: mk_float_def Let_def fzero_def split: if_splits)
    with lt ab e0lo show ?thesis by auto
  qed
qed

lemma round_ratio_error:
  assumes "0 < d" "n \<noteq> 0" "is_fin (round_ratio n d)"
  shows "\<bar>fval (round_ratio n d) - of_int n / of_int d\<bar>
           \<le> 2 powi (max (ilog2 \<bar>n\<bar> d - 52) (- 1074)) / 2"
proof -
  define e0 where "e0 = max (ilog2 \<bar>n\<bar> d - 52) (- 1074)"
  define m0 where "m0 = (if 0 \<le> e0 then round_half_even \<bar>n\<bar> (d * 2 ^ nat e0)
                         else round_half_even (\<bar>n\<bar> * 2 ^ nat (- e0)) d)"
  from assms(2) have apos: "0 < \<bar>n\<bar>" by simp
  note sr = scaled_rounding [OF apos assms(1) e0_def m0_def]
  have rr: "round_ratio n d = mk_float (sgn n * m0) e0"
    using round_ratio_unfold [OF assms(2)] by (simp only: e0_def m0_def)
  with assms(3) have "fval (round_ratio n d) = of_int (sgn n * m0) * 2 powi e0"
    by (simp add: mk_float_val)
  also have "\<dots> = of_int (sgn n) * (of_int m0 * 2 powi e0)" by simp
  finally have v: "fval (round_ratio n d) = of_int (sgn n) * (of_int m0 * 2 powi e0)" .
  have pos: "(0::rat) < 2 powi e0" by simp
  have q: "(of_int n / of_int d :: rat)
             = of_int (sgn n) * ((of_int \<bar>n\<bar> / of_int d) / 2 powi e0 * 2 powi e0)"
    using assms(2) by (cases "0 < n") (simp_all add: sgn_if)
  have "\<bar>fval (round_ratio n d) - of_int n / of_int d\<bar>
          = \<bar>of_int (sgn n) * ((of_int m0 - (of_int \<bar>n\<bar> / of_int d) / 2 powi e0) * 2 powi e0)\<bar>"
    unfolding v by (subst q) (simp only: algebra_simps)
  also have "\<dots> = \<bar>of_int m0 - (of_int \<bar>n\<bar> / of_int d) / 2 powi e0\<bar> * 2 powi e0"
    using assms(2) pos by (cases "0 < n") (simp_all add: sgn_if abs_mult)
  also have "\<dots> \<le> (1 / 2) * 2 powi e0"
    using sr(1) pos by (intro mult_right_mono) simp_all
  finally show ?thesis by (simp add: e0_def)
qed

lemma in_range_Fin [simp]: "in_range (Fin m e) \<longleftrightarrow> - 1074 \<le> e"
  by (simp add: in_range_def)

lemma round_ratio_sign:
  assumes "0 < d" "0 \<le> n" "round_ratio n d = Fin m e"
  shows "0 \<le> m"
proof (cases "n = 0")
  case True
  with assms(3) show ?thesis by (simp add: round_ratio_def fzero_def)
next
  case False
  define e0 where "e0 = max (ilog2 \<bar>n\<bar> d - 52) (- 1074)"
  define m0 where "m0 = (if 0 \<le> e0 then round_half_even \<bar>n\<bar> (d * 2 ^ nat e0)
                         else round_half_even (\<bar>n\<bar> * 2 ^ nat (- e0)) d)"
  from False have apos: "0 < \<bar>n\<bar>" by simp
  note sr = scaled_rounding [OF apos assms(1) e0_def m0_def]
  have rr: "round_ratio n d = mk_float (sgn n * m0) e0"
    using round_ratio_unfold [OF False] by (simp only: e0_def m0_def)
  from False assms(2) have "sgn n = 1" by simp
  with rr assms(3) have "mk_float m0 e0 = Fin m e" by simp
  then have "m = m0 div 2 \<or> m = m0 \<or> m = 0"
    by (auto simp: mk_float_def Let_def fzero_def split: if_splits)
  with sr(2) show ?thesis by (auto simp: pos_imp_zdiv_nonneg_iff)
qed

lemma in_range_round_ratio: "0 < d \<Longrightarrow> in_range (round_ratio n d)"
  using round_ratio_format [of d n] by (cases "round_ratio n d") (simp_all add: in_range_def)

lemma round_ratio_zero: "round_ratio 0 d = fzero"
  by (simp add: round_ratio_def)

text \<open>The relative error of rounding is at most \<open>2 ^ - 53\<close>, unless the result is subnormal.\<close>

lemma round_ratio_rel:
  assumes "0 < d" "is_fin (round_ratio n d)"
  shows "\<bar>fval (round_ratio n d) - of_int n / of_int d\<bar>
           \<le> \<bar>of_int n / of_int d\<bar> / 2 ^ 53 + 1 / 2 ^ 1075"
proof (cases "n = 0")
  case True
  then show ?thesis by (simp add: round_ratio_zero)
next
  case False
  then have apos: "0 < \<bar>n\<bar>" by simp
  note err = round_ratio_error [OF assms(1) False assms(2)]
  note lb = ilog2_bounds [OF apos assms(1)]
  have ab: "\<bar>of_int n / of_int d :: rat\<bar> = of_int \<bar>n\<bar> / of_int d"
    using assms(1) by simp
  show ?thesis
  proof (cases "- 1074 \<le> ilog2 \<bar>n\<bar> d - 52")
    case True
    then have "max (ilog2 \<bar>n\<bar> d - 52) (- 1074) = ilog2 \<bar>n\<bar> d - 52" by simp
    moreover have "(2::rat) powi (ilog2 \<bar>n\<bar> d - 52) = 2 powi (ilog2 \<bar>n\<bar> d) / 2 powi 52"
      by (rule power_int_diff) simp
    ultimately have "\<bar>fval (round_ratio n d) - of_int n / of_int d\<bar>
        \<le> 2 powi (ilog2 \<bar>n\<bar> d) / 2 ^ 53"
      using err by simp
    also have "\<dots> \<le> (of_int \<bar>n\<bar> / of_int d) / 2 ^ 53"
      using lb by (intro divide_right_mono) simp_all
    finally have E: "\<bar>fval (round_ratio n d) - of_int n / of_int d\<bar>
        \<le> \<bar>of_int n / of_int d\<bar> / 2 ^ 53" unfolding ab .
    show ?thesis by (rule add_increasing2 [OF _ E]) simp
  next
    case False
    then have "max (ilog2 \<bar>n\<bar> d - 52) (- 1074) = - 1074" by simp
    with err have "\<bar>fval (round_ratio n d) - of_int n / of_int d\<bar> \<le> 2 powi (- 1074) / 2"
      by simp
    also have "(2::rat) powi (- 1074) / 2 = 1 / 2 ^ 1075"
      by (simp add: power_int_minus field_simps)
    finally have E: "\<bar>fval (round_ratio n d) - of_int n / of_int d\<bar> \<le> 1 / 2 ^ 1075" .
    show ?thesis by (rule add_increasing [OF _ E]) simp
  qed
qed

text \<open>A quotient that is a multiple of the unit in the last place is not rounded.\<close>

lemma round_ratio_exact:
  assumes "0 < d" "n \<noteq> 0" "is_fin (round_ratio n d)"
    and "(of_int \<bar>n\<bar> / of_int d) / 2 powi (max (ilog2 \<bar>n\<bar> d - 52) (- 1074)) = (of_int k :: rat)"
  shows "fval (round_ratio n d) = of_int n / of_int d"
proof -
  define e0 where "e0 = max (ilog2 \<bar>n\<bar> d - 52) (- 1074)"
  define m0 where "m0 = (if 0 \<le> e0 then round_half_even \<bar>n\<bar> (d * 2 ^ nat e0)
                         else round_half_even (\<bar>n\<bar> * 2 ^ nat (- e0)) d)"
  from assms(2) have apos: "0 < \<bar>n\<bar>" by simp
  note sr = scaled_rounding [OF apos assms(1) e0_def m0_def]
  from sr(1) assms(4) have "\<bar>(of_int m0 :: rat) - of_int k\<bar> \<le> 1 / 2" by (simp add: e0_def)
  then have "\<bar>(of_int (m0 - k) :: rat)\<bar> < of_int 1" by simp
  then have "\<bar>m0 - k\<bar> < 1" by (simp only: of_int_abs [symmetric] of_int_less_iff)
  then have mk: "m0 = k" by simp
  have rr: "round_ratio n d = mk_float (sgn n * m0) e0"
    using round_ratio_unfold [OF assms(2)] by (simp only: e0_def m0_def)
  with assms(3) have "fval (round_ratio n d) = of_int (sgn n * m0) * 2 powi e0"
    by (simp add: mk_float_val)
  also have "\<dots> = of_int (sgn n) * (of_int k * 2 powi e0)" by (simp add: mk)
  also have "of_int k * (2::rat) powi e0 = of_int \<bar>n\<bar> / of_int d"
    using assms(4) [symmetric] by (simp add: e0_def)
  also have "of_int (sgn n) * (of_int \<bar>n\<bar> / of_int d :: rat) = of_int n / of_int d"
    using assms(2) by (cases "0 < n") (simp_all add: sgn_if)
  finally show ?thesis .
qed

section \<open>The accuracy of the operations\<close>

lemma round_ratio_normal:
  assumes "0 < d" "n \<noteq> 0" "is_fin (round_ratio n d)" "- 1074 \<le> ilog2 \<bar>n\<bar> d - 52"
  shows "\<bar>fval (round_ratio n d) - of_int n / of_int d\<bar> \<le> \<bar>of_int n / of_int d\<bar> / 2 ^ 53"
proof -
  from assms(2) have apos: "0 < \<bar>n\<bar>" by simp
  note err = round_ratio_error [OF assms(1,2,3)]
  note lb = ilog2_bounds [OF apos assms(1)]
  have ab: "\<bar>of_int n / of_int d :: rat\<bar> = of_int \<bar>n\<bar> / of_int d"
    using assms(1) by simp
  from assms(4) have "max (ilog2 \<bar>n\<bar> d - 52) (- 1074) = ilog2 \<bar>n\<bar> d - 52" by simp
  moreover have "(2::rat) powi (ilog2 \<bar>n\<bar> d - 52) = 2 powi (ilog2 \<bar>n\<bar> d) / 2 powi 52"
    by (rule power_int_diff) simp
  ultimately have "\<bar>fval (round_ratio n d) - of_int n / of_int d\<bar>
      \<le> 2 powi (ilog2 \<bar>n\<bar> d) / 2 ^ 53"
    using err by simp
  also have "\<dots> \<le> (of_int \<bar>n\<bar> / of_int d) / 2 ^ 53"
    using lb by (intro divide_right_mono) simp_all
  finally show ?thesis unfolding ab .
qed

lemma dyadic_quotient:
  "(of_int (if 0 \<le> E then M * 2 ^ nat E else M)
      / of_int (if 0 \<le> E then 1 else 2 ^ nat (- E)) :: rat) = of_int M * 2 powi E"
  by (simp add: power_int_def field_simps)

lemma in_range_special [simp]: "in_range PInf" "in_range NInf" "in_range NaN" "in_range fzero"
  by (simp_all add: in_range_def fzero_def)

lemma in_range_round_dyadic: "in_range (round_dyadic M E)"
  by (simp add: round_dyadic_def in_range_round_ratio)

text \<open>
  The sum of two floats is a multiple of the smaller of their units; so an addition is exact
  when the result is subnormal, and its relative error is at most \<open>2 ^ - 53\<close> in every case.
\<close>

lemma round_dyadic_err:
  assumes "- 1074 \<le> E" "is_fin (round_dyadic M E)"
  shows "\<bar>fval (round_dyadic M E) - of_int M * 2 powi E\<bar> \<le> \<bar>of_int M * 2 powi E\<bar> / 2 ^ 53"
proof (cases "M = 0")
  case True
  then show ?thesis by (simp add: round_dyadic_def round_ratio_zero)
next
  case False
  define n where "n = (if 0 \<le> E then M * 2 ^ nat E else M)"
  define d where "d = (if 0 \<le> E then 1 else (2::int) ^ nat (- E))"
  have rd: "round_dyadic M E = round_ratio n d" by (simp add: round_dyadic_def n_def d_def)
  have dpos: "0 < d" by (simp add: d_def)
  have n0: "n \<noteq> 0" using False by (simp add: n_def)
  have q: "(of_int n / of_int d :: rat) = of_int M * 2 powi E"
    unfolding n_def d_def by (rule dyadic_quotient)
  have fin: "is_fin (round_ratio n d)" using assms(2) rd by simp
  define e0 where "e0 = max (ilog2 \<bar>n\<bar> d - 52) (- 1074)"
  show ?thesis
  proof (cases "e0 \<le> E")
    case True
    have "(of_int \<bar>n\<bar> / of_int d :: rat) = \<bar>of_int n / of_int d\<bar>" using dpos by simp
    also have "\<dots> = of_int \<bar>M\<bar> * 2 powi E" unfolding q by (simp add: abs_mult)
    finally have "(of_int \<bar>n\<bar> / of_int d) / 2 powi e0 = of_int \<bar>M\<bar> * (2 powi E / 2 powi e0 :: rat)"
      by simp
    also have "(2::rat) powi E / 2 powi e0 = 2 powi (E - e0)"
      by (rule power_int_diff [symmetric]) simp
    also have "(2::rat) powi (E - e0) = 2 ^ nat (E - e0)" using True by (simp add: power_int_def)
    finally have "(of_int \<bar>n\<bar> / of_int d) / 2 powi e0 = (of_int (\<bar>M\<bar> * 2 ^ nat (E - e0)) :: rat)"
      by simp
    from round_ratio_exact [OF dpos n0 fin this [unfolded e0_def]]
    have "fval (round_ratio n d) = of_int n / of_int d" .
    then show ?thesis by (simp add: rd q)
  next
    case False
    with assms(1) have "- 1074 < e0" by simp
    then have "- 1074 \<le> ilog2 \<bar>n\<bar> d - 52" by (simp add: e0_def)
    from round_ratio_normal [OF dpos n0 fin this] show ?thesis by (simp only: rd q)
  qed
qed

lemma fadd_fin: "is_fin (fadd a b) \<Longrightarrow> is_fin a \<and> is_fin b"
  by (cases a; cases b) simp_all

lemma in_range_fadd: "in_range (fadd a b)"
  by (cases a; cases b) (simp_all add: Let_def in_range_round_dyadic)

lemma fadd_err:
  assumes "in_range a" "in_range b" "is_fin (fadd a b)"
  shows "\<bar>fval (fadd a b) - (fval a + fval b)\<bar> \<le> \<bar>fval a + fval b\<bar> / 2 ^ 53"
proof -
  from fadd_fin [OF assms(3)] obtain m1 e1 m2 e2 where a: "a = Fin m1 e1" and b: "b = Fin m2 e2"
    by (cases a; cases b) simp_all
  define e where "e = min e1 e2"
  define M where "M = m1 * 2 ^ nat (e1 - e) + m2 * 2 ^ nat (e2 - e)"
  have le: "e \<le> e1" "e \<le> e2" by (simp_all add: e_def)
  from assms(1,2) have lo: "- 1074 \<le> e" by (simp add: a b e_def)
  have fa: "fadd a b = round_dyadic M e" by (simp add: a b Let_def e_def M_def)
  have "fval a + fval b
          = of_int (m1 * 2 ^ nat (e1 - e)) * 2 powi e + of_int (m2 * 2 ^ nat (e2 - e)) * 2 powi e"
    unfolding a b by (simp only: fval_Fin aligned_val [OF le(1)] aligned_val [OF le(2)])
  also have "\<dots> = of_int M * 2 powi e" by (simp only: M_def of_int_add distrib_right)
  finally have v: "fval a + fval b = of_int M * 2 powi e" .
  from assms(3) have "is_fin (round_dyadic M e)" by (simp only: fa)
  from round_dyadic_err [OF lo this] show ?thesis by (simp only: fa v)
qed

lemma fval_fneg [simp]: "fval (fneg x) = - fval x"
  by (cases x) (simp_all add: fval_def)

lemma fval_fabs [simp]: "fval (fabs x) = \<bar>fval x\<bar>"
  by (cases x) (simp_all add: fval_def abs_mult)

lemma in_range_fneg [simp]: "in_range (fneg x) = in_range x"
  by (cases x) (simp_all add: in_range_def)

lemma in_range_fabs [simp]: "in_range (fabs x) = in_range x"
  by (cases x) (simp_all add: in_range_def)

lemma is_fin_fneg [simp]: "is_fin (fneg x) = is_fin x"
  by (cases x) simp_all

lemma is_fin_fabs [simp]: "is_fin (fabs x) = is_fin x"
  by (cases x) simp_all

lemma fsub_fin: "is_fin (fsub a b) \<Longrightarrow> is_fin a \<and> is_fin b"
  using fadd_fin [of a "fneg b"] by (simp add: fsub_def)

lemma in_range_fsub: "in_range (fsub a b)"
  by (simp add: fsub_def in_range_fadd)

lemma fsub_err:
  assumes "in_range a" "in_range b" "is_fin (fsub a b)"
  shows "\<bar>fval (fsub a b) - (fval a - fval b)\<bar> \<le> \<bar>fval a - fval b\<bar> / 2 ^ 53"
  using fadd_err [of a "fneg b"] assms by (simp add: fsub_def)

lemma fdiv_err:
  assumes "fdiv a (Fin m2 e2) = Inr q" "is_fin q" "m2 \<noteq> 0"
  shows "is_fin a"
    and "\<bar>fval q - fval a / fval (Fin m2 e2)\<bar>
           \<le> \<bar>fval a / fval (Fin m2 e2)\<bar> / 2 ^ 53 + 1 / 2 ^ 1075"
proof -
  from assms show fin: "is_fin a"
    by (cases a) (auto simp: inf_of_sign_def sgn_if split: if_splits)
  then obtain m1 e1 where a: "a = Fin m1 e1" by (cases a) simp_all
  define e where "e = min e1 e2"
  define n where "n = sgn m2 * m1 * 2 ^ nat (e1 - e)"
  define d where "d = \<bar>m2\<bar> * 2 ^ nat (e2 - e)"
  have le: "e \<le> e1" "e \<le> e2" by (simp_all add: e_def)
  have q: "q = round_ratio n d"
    using assms(1,3) by (simp add: a Let_def e_def n_def d_def)
  have dpos: "0 < d" using assms(3) by (simp add: d_def)
  have pos: "(0::rat) < 2 powi e" by simp
  have "fval a / fval (Fin m2 e2)
          = (of_int (m1 * 2 ^ nat (e1 - e)) * 2 powi e) / (of_int (m2 * 2 ^ nat (e2 - e)) * 2 powi e)"
    unfolding a by (simp only: fval_Fin aligned_val [OF le(1)] aligned_val [OF le(2)])
  also have "\<dots> = of_int (m1 * 2 ^ nat (e1 - e)) / of_int (m2 * 2 ^ nat (e2 - e))"
    using pos by simp
  also have "\<dots> = of_int n / of_int d"
    using assms(3) by (cases "0 < m2") (simp_all add: n_def d_def sgn_if)
  finally have v: "fval a / fval (Fin m2 e2) = of_int n / of_int d" .
  from assms(2) have "is_fin (round_ratio n d)" by (simp only: q)
  from round_ratio_rel [OF dpos this]
  show "\<bar>fval q - fval a / fval (Fin m2 e2)\<bar>
           \<le> \<bar>fval a / fval (Fin m2 e2)\<bar> / 2 ^ 53 + 1 / 2 ^ 1075"
    by (simp only: q v)
qed

lemma float_of_int_exact:
  assumes "0 < n" "n < 2 ^ 53"
  shows "\<exists>m e. float_of_int n = Inr (Fin m e) \<and> m \<noteq> 0 \<and> fval (Fin m e) = of_int n"
proof -
  have "is_fin (round_ratio n 1) \<and> 0 \<le> fval (round_ratio n 1) \<and> fval (round_ratio n 1) \<le> of_int n"
    using assms by (intro round_ratio_bounded) simp_all
  then have fin: "is_fin (round_ratio n 1)" by blast
  define e0 where "e0 = max (ilog2 \<bar>n\<bar> 1 - 52) (- 1074)"
  have "ilog2 n 1 \<le> 52" using assms by (intro ilog2_le [of n 1 n]) simp_all
  then have e0: "e0 \<le> 0" using assms(1) by (simp add: e0_def)
  have "(2::rat) powi e0 = 1 / 2 ^ nat (- e0)" using e0 by (simp add: power_int_def field_simps)
  then have "(of_int \<bar>n\<bar> / of_int 1) / 2 powi e0 = (of_int (n * 2 ^ nat (- e0)) :: rat)"
    using assms(1) by simp
  from round_ratio_exact [OF _ _ fin this [unfolded e0_def]] assms(1)
  have v: "fval (round_ratio n 1) = of_int n" by simp
  from fin obtain m e where rr: "round_ratio n 1 = Fin m e" by (cases "round_ratio n 1") simp_all
  with v assms(1) have "m \<noteq> 0" by auto
  with rr v show ?thesis by (simp add: float_of_int_def no_overflow_def)
qed

section \<open>Error bounds in rational arithmetic\<close>

lemma p53: "(2::rat) ^ 53 = 9007199254740992"
  by simp

lemma inc_arith:
  fixes p q t z i :: rat
  assumes "0 \<le> p" "0 \<le> q"
    and d1: "\<bar>t - (p + q)\<bar> \<le> \<bar>p + q\<bar> / 2 ^ 53"
    and d2: "\<bar>z - (p - t)\<bar> \<le> \<bar>p - t\<bar> / 2 ^ 53"
    and d3: "\<bar>i - (z + q)\<bar> \<le> \<bar>z + q\<bar> / 2 ^ 53"
  shows "\<bar>i\<bar> \<le> 3 * (p + q) / 2 ^ 53"
proof -
  define s where "s = p + q"
  define V where "V = \<bar>p - t\<bar>"
  define W where "W = \<bar>z + q\<bar>"
  have s0: "0 \<le> s" "q \<le> s" using assms(1,2) by (simp_all add: s_def)
  from d1 s0 have e1: "\<bar>t - s\<bar> \<le> s / 9007199254740992"
    unfolding p53 s_def [symmetric] by simp
  have "p - t = s - t - q" by (simp add: s_def)
  with e1 s0 assms(2) have v1: "V \<le> q + s / 9007199254740992"
    unfolding V_def by linarith
  from d2 have e2: "\<bar>z - (p - t)\<bar> \<le> V / 9007199254740992"
    unfolding p53 V_def .
  have "z + q = (z - (p - t)) - (t - s)" by (simp add: s_def)
  with e1 e2 have w1: "W \<le> V / 9007199254740992 + s / 9007199254740992"
    unfolding W_def by linarith
  from d3 have e3: "\<bar>i - (z + q)\<bar> \<le> W / 9007199254740992"
    unfolding p53 W_def .
  have w2: "\<bar>z + q\<bar> = W" by (simp add: W_def)
  from e3 w2 have i1: "\<bar>i\<bar> \<le> W + W / 9007199254740992" by linarith
  from i1 w1 v1 s0 have "\<bar>i\<bar> \<le> 3 * s / 9007199254740992" by linarith
  then show ?thesis unfolding p53 s_def .
qed

lemma count_bound:
  fixes S :: rat
  assumes "k \<le> 2 ^ 48" "0 \<le> S"
  shows "0 \<le> of_nat k * S" and "of_nat k * S \<le> 281474976710656 * S"
proof -
  show "0 \<le> of_nat k * S" using assms(2) by simp
  from assms(1) have "(of_nat k :: rat) \<le> of_nat (2 ^ 48)" by (simp only: of_nat_le_iff)
  then have "(of_nat k :: rat) \<le> 281474976710656" by simp
  then show "of_nat k * S \<le> 281474976710656 * S" using assms(2) by (rule mult_right_mono)
qed

lemma hi_step_arith:
  fixes S x h h' :: rat
  assumes "0 \<le> S" "0 \<le> x" "0 \<le> h" "k \<le> 2 ^ 48"
    and hS: "\<bar>h - S\<bar> \<le> 2 * of_nat k * S / 2 ^ 53"
    and hh: "\<bar>h' - (h + x)\<bar> \<le> \<bar>h + x\<bar> / 2 ^ 53"
  shows "\<bar>h' - (S + x)\<bar> \<le> 2 * of_nat (Suc k) * (S + x) / 2 ^ 53" and "0 \<le> h'"
proof -
  define P where "P = of_nat k * S"
  define Q where "Q = of_nat k * x"
  define y where "y = h + x"
  note cb = count_bound [OF assms(4,1), folded P_def]
  have q0: "0 \<le> Q" using assms(2) by (simp add: Q_def)
  have y0: "0 \<le> y" using assms(2,3) by (simp add: y_def)
  from hS have 1: "\<bar>h - S\<bar> \<le> 2 * P / 9007199254740992"
    unfolding p53 P_def by (simp add: mult.assoc)
  from hh y0 have 2: "\<bar>h' - y\<bar> \<le> y / 9007199254740992"
    unfolding p53 y_def [symmetric] by simp
  from 2 y0 show "0 \<le> h'" by linarith
  have "2 * of_nat (Suc k) * (S + x) / 2 ^ 53
          = 2 * P / 9007199254740992 + 2 * Q / 9007199254740992
            + 2 * S / 9007199254740992 + 2 * x / 9007199254740992"
    unfolding p53 P_def Q_def by (simp add: algebra_simps add_divide_distrib)
  moreover have "\<bar>h' - (S + x)\<bar>
      \<le> 2 * P / 9007199254740992 + 2 * Q / 9007199254740992
            + 2 * S / 9007199254740992 + 2 * x / 9007199254740992"
    using 1 2 cb q0 assms(1,2,3) y_def by linarith
  ultimately show "\<bar>h' - (S + x)\<bar> \<le> 2 * of_nat (Suc k) * (S + x) / 2 ^ 53" by simp
qed

lemma lo_step_arith:
  fixes S x h c c' i :: rat
  assumes "0 \<le> S" "0 \<le> x" "0 \<le> h" "k \<le> 2 ^ 48"
    and hS: "\<bar>h - S\<bar> \<le> 2 * of_nat k * S / 2 ^ 53"
    and cS: "\<bar>c\<bar> \<le> 12 * of_nat k * S / 2 ^ 53"
    and ii: "\<bar>i\<bar> \<le> 3 * (h + x) / 2 ^ 53"
    and cc: "\<bar>c' - (c + i)\<bar> \<le> \<bar>c + i\<bar> / 2 ^ 53"
  shows "\<bar>c'\<bar> \<le> 12 * of_nat (Suc k) * (S + x) / 2 ^ 53"
proof -
  define P where "P = of_nat k * S"
  define Q where "Q = of_nat k * x"
  define W where "W = \<bar>c + i\<bar>"
  note cb = count_bound [OF assms(4,1), folded P_def]
  have q0: "0 \<le> Q" using assms(2) by (simp add: Q_def)
  from hS have 1: "\<bar>h - S\<bar> \<le> 2 * P / 9007199254740992"
    unfolding p53 P_def by (simp add: mult.assoc)
  from cS have 2: "\<bar>c\<bar> \<le> 12 * P / 9007199254740992"
    unfolding p53 P_def by (simp add: mult.assoc)
  from ii have 3: "\<bar>i\<bar> \<le> 3 * h / 9007199254740992 + 3 * x / 9007199254740992"
    unfolding p53 by (simp add: algebra_simps add_divide_distrib)
  from cc have 4: "\<bar>c' - (c + i)\<bar> \<le> W / 9007199254740992"
    unfolding p53 W_def .
  have w: "\<bar>c + i\<bar> = W" by (simp add: W_def)
  from 2 3 w have 5: "W \<le> 12 * P / 9007199254740992 + 3 * h / 9007199254740992
      + 3 * x / 9007199254740992" by linarith
  from 4 w have 6: "\<bar>c'\<bar> \<le> W + W / 9007199254740992" by linarith
  from 1 cb assms(1) have 7: "h \<le> 2 * S" by linarith
  have "12 * of_nat (Suc k) * (S + x) / 2 ^ 53
          = 12 * P / 9007199254740992 + 12 * Q / 9007199254740992
            + 12 * S / 9007199254740992 + 12 * x / 9007199254740992"
    unfolding p53 P_def Q_def by (simp add: algebra_simps add_divide_distrib)
  moreover have "\<bar>c'\<bar>
      \<le> 12 * P / 9007199254740992 + 12 * Q / 9007199254740992
            + 12 * S / 9007199254740992 + 12 * x / 9007199254740992"
    using 5 6 7 cb q0 assms(1,2,3) by linarith
  ultimately show ?thesis by simp
qed

lemma final_arith:
  fixes S h c r :: rat
  assumes "0 \<le> S" "1 \<le> n" "n \<le> 2 ^ 48"
    and hS: "\<bar>h - S\<bar> \<le> 2 * of_nat n * S / 2 ^ 53"
    and cS: "\<bar>c\<bar> \<le> 12 * of_nat n * S / 2 ^ 53"
    and rr: "\<bar>r - (h + c)\<bar> \<le> \<bar>h + c\<bar> / 2 ^ 53"
  shows "\<bar>r - S\<bar> \<le> 16 * of_nat n * S / 2 ^ 53"
proof -
  define P where "P = of_nat n * S"
  define W where "W = \<bar>h + c\<bar>"
  note cb = count_bound [OF assms(3,1), folded P_def]
  from assms(2) have "(1::rat) \<le> of_nat n" by simp
  then have "1 * S \<le> of_nat n * S" using assms(1) by (rule mult_right_mono)
  then have p1: "S \<le> P" by (simp add: P_def)
  from hS have 1: "\<bar>h - S\<bar> \<le> 2 * P / 9007199254740992"
    unfolding p53 P_def by (simp add: mult.assoc)
  from cS have 2: "\<bar>c\<bar> \<le> 12 * P / 9007199254740992"
    unfolding p53 P_def by (simp add: mult.assoc)
  from rr have 4: "\<bar>r - (h + c)\<bar> \<le> W / 9007199254740992"
    unfolding p53 W_def .
  have w: "\<bar>h + c\<bar> = W" by (simp add: W_def)
  from 1 2 w cb assms(1) have 5: "W \<le> 2 * S" by linarith
  from 1 2 4 5 p1 assms(1) have "\<bar>r - S\<bar> \<le> 16 * P / 9007199254740992" by linarith
  then show ?thesis unfolding p53 P_def by (simp add: mult.assoc)
qed

lemma mean_arith:
  fixes S sm q :: rat
  assumes "0 \<le> S" "1 \<le> n" "n \<le> 2 ^ 48"
    and sS: "\<bar>sm - S\<bar> \<le> 16 * of_nat n * S / 2 ^ 53"
    and qq: "\<bar>q - sm / of_nat n\<bar> \<le> \<bar>sm / of_nat n\<bar> / 2 ^ 53 + 1 / 2 ^ 1075"
  shows "\<bar>q - S / of_nat n\<bar> \<le> of_nat n * (S / of_nat n) / 2 ^ 48 + 1 / 2 ^ 1075"
proof -
  define a where "a = sm / of_nat n"
  define mu where "mu = S / of_nat n"
  define E where "E = (1::rat) / 2 ^ 1075"
  define W where "W = \<bar>a\<bar>"
  from assms(2) have n1: "(1::rat) \<le> of_nat n" by simp
  then have npos: "(0::rat) < of_nat n" by linarith
  have "a - mu = (sm - S) / of_nat n" by (simp add: a_def mu_def diff_divide_distrib)
  then have "\<bar>a - mu\<bar> = \<bar>sm - S\<bar> / of_nat n" using npos by simp
  also have "\<dots> \<le> (16 * of_nat n * S / 2 ^ 53) / of_nat n"
    using sS npos by (intro divide_right_mono) simp_all
  also have "\<dots> = 16 * S / 9007199254740992" using npos by simp
  finally have 1: "\<bar>a - mu\<bar> \<le> 16 * S / 9007199254740992" .
  have "S * 1 \<le> S * of_nat n" using n1 assms(1) by (rule mult_left_mono)
  then have 2: "mu \<le> S" using npos by (simp add: mu_def pos_divide_le_eq)
  have mu0: "0 \<le> mu" using assms(1) by (simp add: mu_def)
  from qq have 3: "\<bar>q - a\<bar> \<le> W / 9007199254740992 + E"
    unfolding p53 a_def [symmetric] W_def E_def .
  have w: "\<bar>a\<bar> = W" by (simp add: W_def)
  from 1 2 w mu0 assms(1) have 4: "W \<le> 2 * S" by linarith
  from 1 3 4 assms(1) have "\<bar>q - mu\<bar> \<le> S / 281474976710656 + E" by linarith
  moreover have "of_nat n * (S / of_nat n) / 2 ^ 48 = S / 281474976710656"
    using npos by simp
  ultimately show ?thesis unfolding mu_def E_def by simp
qed

lemma mad_arith:
  fixes D T md :: rat
  assumes "0 \<le> D" "1 \<le> n" "n \<le> 2 ^ 48"
    and TD: "\<bar>T - D\<bar> \<le> D / 2 ^ 53"
    and mm: "\<bar>md - T / of_nat n\<bar> \<le> of_nat n * (T / of_nat n) / 2 ^ 48 + 1 / 2 ^ 1075"
  shows "\<bar>md - D / of_nat n\<bar> \<le> of_nat n * (D / of_nat n) / 2 ^ 47 + 1 / 2 ^ 1075"
proof -
  define a where "a = T / of_nat n"
  define mu where "mu = D / of_nat n"
  define E where "E = (1::rat) / 2 ^ 1075"
  from assms(2) have n1: "(1::rat) \<le> of_nat n" by simp
  then have npos: "(0::rat) < of_nat n" by linarith
  have "a - mu = (T - D) / of_nat n" by (simp add: a_def mu_def diff_divide_distrib)
  then have "\<bar>a - mu\<bar> = \<bar>T - D\<bar> / of_nat n" using npos by simp
  also have "\<dots> \<le> \<bar>T - D\<bar> / 1"
    using n1 by (intro divide_left_mono) simp_all
  finally have 1: "\<bar>a - mu\<bar> \<le> D / 9007199254740992" using TD unfolding p53 by simp
  from TD have 2: "\<bar>T - D\<bar> \<le> D / 9007199254740992" unfolding p53 .
  have "of_nat n * (T / of_nat n) / 2 ^ 48 = T / 281474976710656" using npos by simp
  with mm have 3: "\<bar>md - a\<bar> \<le> T / 281474976710656 + E"
    unfolding a_def [symmetric] E_def by simp
  from 1 2 3 assms(1) have "\<bar>md - mu\<bar> \<le> D / 140737488355328 + E" by linarith
  moreover have "of_nat n * (D / of_nat n) / 2 ^ 47 = D / 140737488355328"
    using npos by simp
  ultimately show ?thesis unfolding mu_def E_def by simp
qed

lemma sum_list_rel:
  fixes f g :: "'a \<Rightarrow> rat"
  assumes "\<forall>x\<in>set xs. \<bar>f x - g x\<bar> \<le> g x / 2 ^ 53"
  shows "\<bar>sum_list (map f xs) - sum_list (map g xs)\<bar> \<le> sum_list (map g xs) / 2 ^ 53"
  using assms
proof (induction xs)
  case Nil
  show ?case by simp
next
  case (Cons x xs)
  define F where "F = sum_list (map f xs)"
  define G where "G = sum_list (map g xs)"
  from Cons have 1: "\<bar>F - G\<bar> \<le> G / 9007199254740992"
    unfolding p53 F_def G_def by simp
  from Cons.prems have 2: "\<bar>f x - g x\<bar> \<le> g x / 9007199254740992"
    unfolding p53 by simp
  from 1 2 have "\<bar>(f x + F) - (g x + G)\<bar> \<le> g x / 9007199254740992 + G / 9007199254740992"
    by linarith
  then show ?case unfolding p53 by (simp add: F_def G_def add_divide_distrib)
qed

section \<open>The accuracy of the sum and of the mean\<close>

lemma sum_fval_nonneg: "\<forall>x\<in>set xs. in_range x \<and> 0 \<le> fval x \<Longrightarrow> 0 \<le> sum_list (map fval xs)"
  by (intro sum_list_nonneg) auto

lemma foldl_fadd_fin: "is_fin (foldl fadd h xs) \<Longrightarrow> is_fin h"
  by (induction xs arbitrary: h) (auto dest: fadd_fin)

lemma foldl_fadd_bound:
  assumes "in_range h0" "0 \<le> fval h0" "0 \<le> A0"
    and "\<bar>fval h0 - A0\<bar> \<le> 2 * of_nat k0 * A0 / 2 ^ 53"
    and "\<forall>x\<in>set xs. in_range x \<and> 0 \<le> fval x"
    and "is_fin (foldl fadd h0 xs)"
    and "k0 + length xs \<le> 2 ^ 48"
  shows "(\<forall>x\<in>set xs. is_fin x) \<and> in_range (foldl fadd h0 xs) \<and> 0 \<le> fval (foldl fadd h0 xs)
       \<and> \<bar>fval (foldl fadd h0 xs) - (A0 + sum_list (map fval xs))\<bar>
           \<le> 2 * of_nat (k0 + length xs) * (A0 + sum_list (map fval xs)) / 2 ^ 53"
  using assms(5,6,7)
proof (induction xs rule: rev_induct)
  case Nil
  with assms(1,2,3,4) show ?case by simp
next
  case (snoc x xs)
  define h where "h = foldl fadd h0 xs"
  define S where "S = A0 + sum_list (map fval xs)"
  from snoc.prems(2) have fin': "is_fin (fadd h x)" by (simp add: h_def)
  then have fh: "is_fin h" and fx: "is_fin x" using fadd_fin by blast+
  from snoc.prems(1) have pxs: "\<forall>x\<in>set xs. in_range x \<and> 0 \<le> fval x"
    and xr: "in_range x" and x0: "0 \<le> fval x" by simp_all
  from snoc.prems(3) have k: "k0 + length xs \<le> 2 ^ 48" by simp
  from snoc.IH [OF pxs fh [unfolded h_def] k]
  have IH: "\<forall>x\<in>set xs. is_fin x" "in_range h" "0 \<le> fval h"
    "\<bar>fval h - S\<bar> \<le> 2 * of_nat (k0 + length xs) * S / 2 ^ 53"
    by (simp_all add: h_def S_def)
  have S0: "0 \<le> S" using assms(3) sum_fval_nonneg [OF pxs] by (simp add: S_def)
  note err = fadd_err [OF IH(2) xr fin']
  note st = hi_step_arith [OF S0 x0 IH(3) k IH(4) err]
  have e1: "foldl fadd h0 (xs @ [x]) = fadd h x" by (simp add: h_def)
  have e2: "A0 + sum_list (map fval (xs @ [x])) = S + fval x" by (simp add: S_def)
  have e3: "k0 + length (xs @ [x]) = Suc (k0 + length xs)" by simp
  have a: "\<forall>y\<in>set (xs @ [x]). is_fin y" using IH(1) fx by simp
  show ?case unfolding e1 e2 e3 using a in_range_fadd [of h x] st by blast
qed

lemma fst_foldl_cs_add: "fst (foldl cs_add (h, c) xs) = foldl fadd h xs"
  by (induction xs arbitrary: h c) (simp_all add: cs_add_def Let_def)

lemma cs_increment:
  assumes "in_range p" "in_range q" "0 \<le> fval p" "0 \<le> fval q" "in_range t"
    and "\<bar>fval t - (fval p + fval q)\<bar> \<le> \<bar>fval p + fval q\<bar> / 2 ^ 53"
    and "is_fin (fadd (fsub p t) q)"
  shows "\<bar>fval (fadd (fsub p t) q)\<bar> \<le> 3 * (fval p + fval q) / 2 ^ 53"
proof -
  from fadd_fin [OF assms(7)] have fz: "is_fin (fsub p t)" by blast
  note d2 = fsub_err [OF assms(1,5) fz]
  note d3 = fadd_err [OF in_range_fsub assms(2,7)]
  from inc_arith [OF assms(3,4,6) d2 d3] show ?thesis .
qed

lemma foldl_cs_add_bound:
  assumes "in_range h0" "0 \<le> fval h0" "0 \<le> A0"
    and "\<bar>fval h0 - A0\<bar> \<le> 2 * of_nat k0 * A0 / 2 ^ 53"
    and "in_range c0" "\<bar>fval c0\<bar> \<le> 12 * of_nat k0 * A0 / 2 ^ 53"
    and "\<forall>x\<in>set xs. in_range x \<and> 0 \<le> fval x"
    and "is_fin (fst (foldl cs_add (h0, c0) xs))" "is_fin (snd (foldl cs_add (h0, c0) xs))"
    and "k0 + length xs \<le> 2 ^ 48"
  shows "in_range (snd (foldl cs_add (h0, c0) xs))
       \<and> \<bar>fval (snd (foldl cs_add (h0, c0) xs))\<bar>
           \<le> 12 * of_nat (k0 + length xs) * (A0 + sum_list (map fval xs)) / 2 ^ 53"
  using assms(7,8,9,10)
proof (induction xs rule: rev_induct)
  case Nil
  with assms(5,6) show ?case by simp
next
  case (snoc x xs)
  define st where "st = foldl cs_add (h0, c0) xs"
  define h where "h = fst st"
  define c where "c = snd st"
  define t where "t = fadd h x"
  define inc where "inc = (if fle (fabs x) (fabs h) then fadd (fsub h t) x else fadd (fsub x t) h)"
  define S where "S = A0 + sum_list (map fval xs)"
  have hf: "h = foldl fadd h0 xs" by (simp add: h_def st_def fst_foldl_cs_add)
  have step: "foldl cs_add (h0, c0) (xs @ [x]) = (t, fadd c inc)"
    by (simp add: cs_add_def Let_def st_def [symmetric] h_def c_def t_def inc_def)
  from snoc.prems(2,3) [unfolded step] have ft: "is_fin t" and fc': "is_fin (fadd c inc)"
    by simp_all
  from fadd_fin [OF ft [unfolded t_def]] have fh: "is_fin h" and fx: "is_fin x" by blast+
  from fadd_fin [OF fc'] have fc: "is_fin c" and fi: "is_fin inc" by blast+
  from snoc.prems(1) have pxs: "\<forall>x\<in>set xs. in_range x \<and> 0 \<le> fval x"
    and xr: "in_range x" and x0: "0 \<le> fval x" by simp_all
  from snoc.prems(4) have k: "k0 + length xs \<le> 2 ^ 48" by simp
  from snoc.IH [OF pxs fh [unfolded h_def st_def] fc [unfolded c_def st_def] k]
  have IH: "in_range c" "\<bar>fval c\<bar> \<le> 12 * of_nat (k0 + length xs) * S / 2 ^ 53"
    by (simp_all add: c_def st_def S_def)
  from foldl_fadd_bound [OF assms(1,2,3,4) pxs fh [unfolded hf] k]
  have H: "in_range h" "0 \<le> fval h"
    "\<bar>fval h - S\<bar> \<le> 2 * of_nat (k0 + length xs) * S / 2 ^ 53"
    by (simp_all add: hf S_def)
  have S0: "0 \<le> S" using assms(3) sum_fval_nonneg [OF pxs] by (simp add: S_def)
  have d1: "\<bar>fval t - (fval h + fval x)\<bar> \<le> \<bar>fval h + fval x\<bar> / 2 ^ 53"
    unfolding t_def using H(1) xr ft [unfolded t_def] by (rule fadd_err)
  have tr: "in_range t" by (simp add: t_def in_range_fadd)
  have ii: "\<bar>fval inc\<bar> \<le> 3 * (fval h + fval x) / 2 ^ 53"
  proof (cases "fle (fabs x) (fabs h)")
    case True
    with fi have "is_fin (fadd (fsub h t) x)" by (simp add: inc_def)
    from cs_increment [OF H(1) xr H(2) x0 tr d1 this] True show ?thesis by (simp add: inc_def)
  next
    case False
    with fi have f: "is_fin (fadd (fsub x t) h)" by (simp add: inc_def)
    from d1 have "\<bar>fval t - (fval x + fval h)\<bar> \<le> \<bar>fval x + fval h\<bar> / 2 ^ 53"
      by (simp only: add.commute)
    from cs_increment [OF xr H(1) x0 H(2) tr this f] False show ?thesis
      by (simp add: inc_def add.commute)
  qed
  have ir: "in_range inc" by (simp add: inc_def in_range_fadd)
  note cc = fadd_err [OF IH(1) ir fc']
  note lo = lo_step_arith [OF S0 x0 H(2) k H(3) IH(2) ii cc]
  have e2: "A0 + sum_list (map fval (xs @ [x])) = S + fval x" by (simp add: S_def)
  have e3: "k0 + length (xs @ [x]) = Suc (k0 + length xs)" by simp
  show ?case unfolding step e2 e3 snd_conv using lo in_range_fadd [of c inc] by blast
qed

lemma two_le_sixteen:
  fixes S :: rat
  assumes "0 \<le> S" "\<bar>h - S\<bar> \<le> 2 * of_nat n * S / 2 ^ 53"
  shows "\<bar>h - S\<bar> \<le> 16 * of_nat n * S / 2 ^ 53"
proof -
  have "0 \<le> of_nat n * S" using assms(1) by simp
  then have "2 * (of_nat n * S) / 2 ^ 53 \<le> 16 * (of_nat n * S) / 2 ^ 53"
    by (intro divide_right_mono mult_right_mono) simp_all
  with assms(2) show ?thesis by (simp add: mult.assoc)
qed

lemma py_sum_bound:
  assumes "xs \<noteq> []" "\<forall>x\<in>set xs. in_range x \<and> 0 \<le> fval x"
    and "is_fin (py_sum env xs)" "length xs \<le> 2 ^ 48"
  shows "(\<forall>x\<in>set xs. is_fin x)
       \<and> \<bar>fval (py_sum env xs) - sum_list (map fval xs)\<bar>
           \<le> 16 * of_nat (length xs) * sum_list (map fval xs) / 2 ^ 53"
proof -
  define S where "S = sum_list (map fval xs)"
  have S0: "0 \<le> S" unfolding S_def by (rule sum_fval_nonneg [OF assms(2)])
  have naive: "(\<forall>x\<in>set xs. is_fin x) \<and> in_range (foldl fadd fzero xs)
       \<and> \<bar>fval (foldl fadd fzero xs) - S\<bar> \<le> 2 * of_nat (length xs) * S / 2 ^ 53"
    if "is_fin (foldl fadd fzero xs)"
    using foldl_fadd_bound [of fzero 0 0 xs, OF _ _ _ _ assms(2) that] assms(4)
    by (simp add: S_def)
  show ?thesis
  proof (cases "compensated_sum env")
    case False
    then have ps: "py_sum env xs = foldl fadd fzero xs" by (simp add: py_sum_def naive_sum_def)
    from naive assms(3) two_le_sixteen [OF S0] show ?thesis
      unfolding ps S_def [symmetric] by blast
  next
    case True
    from assms(1) obtain x r where xs: "xs = x # r" by (cases xs) simp_all
    define h0 where "h0 = fadd fzero x"
    define st where "st = foldl cs_add (h0, fzero) r"
    define h where "h = fst st"
    define c where "c = snd st"
    have ps: "py_sum env xs = (if finite_nonzero c then fadd h c else h)"
      using True
      by (simp add: py_sum_def compensated_sum_of_def xs cs_to_double_def h0_def st_def h_def c_def)
    have hf: "h = foldl fadd fzero xs"
      by (simp add: h_def st_def fst_foldl_cs_add h0_def xs)
    have fh: "is_fin h" using assms(3) fadd_fin [of h c] unfolding ps by (auto split: if_splits)
    from naive [OF fh [unfolded hf]]
    have fx: "\<forall>x\<in>set xs. is_fin x" and hr: "in_range h"
      and hS: "\<bar>fval h - S\<bar> \<le> 2 * of_nat (length xs) * S / 2 ^ 53"
      by (simp_all add: hf)
    show ?thesis
    proof (cases "finite_nonzero c")
      case False
      with ps have "py_sum env xs = h" by simp
      with fx two_le_sixteen [OF S0 hS] show ?thesis by (simp add: S_def)
    next
      case fz: True
      with ps have res: "py_sum env xs = fadd h c" by simp
      from fz have fc: "is_fin c" by (cases c) simp_all
      from assms(2) have xr: "in_range x" and x0: "0 \<le> fval x"
        and pr: "\<forall>x\<in>set r. in_range x \<and> 0 \<le> fval x" by (simp_all add: xs)
      from fh have "is_fin (foldl fadd h0 r)" by (simp add: hf xs h0_def)
      then have fh0: "is_fin h0" by (rule foldl_fadd_fin)
      have "\<bar>fval h0 - (fval fzero + fval x)\<bar> \<le> \<bar>fval fzero + fval x\<bar> / 2 ^ 53"
        unfolding h0_def using in_range_special(4) xr fh0 [unfolded h0_def] by (rule fadd_err)
      with x0 have e0: "\<bar>fval h0 - fval x\<bar> \<le> fval x / 2 ^ 53" by simp
      have "fval x / 2 ^ 53 \<le> 2 * fval x / 2 ^ 53"
        using x0 by (intro divide_right_mono) simp_all
      with e0 have b0: "\<bar>fval h0 - fval x\<bar> \<le> 2 * of_nat 1 * fval x / 2 ^ 53" by simp
      from e0 x0 have h00: "0 \<le> fval h0" unfolding p53 by linarith
      have r0: "in_range h0" by (simp add: h0_def in_range_fadd)
      have c0: "\<bar>fval fzero\<bar> \<le> 12 * of_nat 1 * fval x / 2 ^ 53" using x0 by simp
      have kk: "1 + length r \<le> 2 ^ 48" using assms(4) by (simp add: xs)
      from foldl_cs_add_bound [OF r0 h00 x0 b0 in_range_special(4) c0 pr
          fh [unfolded h_def st_def] fc [unfolded c_def st_def] kk]
      have cr: "in_range c" and cS: "\<bar>fval c\<bar> \<le> 12 * of_nat (length xs) * S / 2 ^ 53"
        by (simp_all add: c_def st_def S_def xs)
      have fr: "is_fin (fadd h c)" using assms(3) by (simp only: res)
      note rr = fadd_err [OF hr cr fr]
      have n1: "1 \<le> length xs" by (simp add: xs)
      from final_arith [OF S0 n1 assms(4) hS cS rr] fx show ?thesis
        by (simp add: res S_def)
    qed
  qed
qed

lemma in_range_fdiv: "fdiv a b = Inr q \<Longrightarrow> in_range q"
  by (cases a; cases b)
     (auto simp: Let_def in_range_round_ratio inf_of_sign_def split: if_splits)

text \<open>
  The average computed by \<open>mean\<close> approximates the arithmetic mean of non-negative items:
  the relative error is at most \<open>n / 2 ^ 48\<close> for \<open>n\<close> items, with either summation, beside
  the absolute error \<open>2 ^ - 1075\<close> of a division that underflows.
\<close>

lemma mean_bound:
  assumes "xs \<noteq> []" "\<forall>x\<in>set xs. in_range x \<and> 0 \<le> fval x"
    and "mean env xs = Inr q" "is_fin q" "length xs \<le> 2 ^ 48"
  shows "(\<forall>x\<in>set xs. is_fin x) \<and> in_range q
       \<and> \<bar>fval q - arithmetic_mean xs\<bar>
           \<le> of_nat (length xs) * arithmetic_mean xs / 2 ^ 48 + 1 / 2 ^ 1075"
proof -
  define n where "n = length xs"
  define S where "S = sum_list (map fval xs)"
  have n1: "1 \<le> n" using assms(1) by (cases xs) (simp_all add: n_def)
  have n48: "n \<le> 2 ^ 48" using assms(5) by (simp add: n_def)
  have "int n \<le> 2 ^ 48" using n48 by (metis of_nat_le_iff of_nat_numeral of_nat_power)
  then have "0 < int n" "int n < 2 ^ 53" using n1 by simp_all
  from float_of_int_exact [OF this] obtain m e where
    fi: "float_of_int (int n) = Inr (Fin m e)" and m0: "m \<noteq> 0"
    and fv: "fval (Fin m e) = of_nat n" by auto
  from assms(3) have fd: "fdiv (py_sum env xs) (Fin m e) = Inr q"
    by (simp add: mean_def bindE_def fi n_def [symmetric])
  note de = fdiv_err [OF fd assms(4) m0]
  note sb = py_sum_bound [OF assms(1,2) de(1) assms(5)]
  have S0: "0 \<le> S" unfolding S_def by (rule sum_fval_nonneg [OF assms(2)])
  from sb have sS: "\<bar>fval (py_sum env xs) - S\<bar> \<le> 16 * of_nat n * S / 2 ^ 53"
    by (simp add: S_def n_def)
  from de(2) have qq: "\<bar>fval q - fval (py_sum env xs) / of_nat n\<bar>
      \<le> \<bar>fval (py_sum env xs) / of_nat n\<bar> / 2 ^ 53 + 1 / 2 ^ 1075"
    by (simp only: fv)
  from sb have fx: "\<forall>x\<in>set xs. is_fin x" by blast
  from mean_arith [OF S0 n1 n48 sS qq]
  have "\<bar>fval q - arithmetic_mean xs\<bar>
           \<le> of_nat (length xs) * arithmetic_mean xs / 2 ^ 48 + 1 / 2 ^ 1075"
    unfolding arithmetic_mean_def S_def n_def .
  with fx in_range_fdiv [OF fd] show ?thesis by blast
qed

lemma mdev_bound:
  assumes "xs \<noteq> []" "\<forall>x\<in>set xs. in_range x" "in_range a"
    and "mean env (map (\<lambda>x. fabs (fsub x a)) xs) = Inr md" "is_fin md" "length xs \<le> 2 ^ 48"
  shows "is_fin a \<and> (\<forall>x\<in>set xs. is_fin x)
       \<and> \<bar>fval md - mean_abs_deviation (fval a) xs\<bar>
           \<le> of_nat (length xs) * mean_abs_deviation (fval a) xs / 2 ^ 47 + 1 / 2 ^ 1075"
proof -
  define ds where "ds = map (\<lambda>x. fabs (fsub x a)) xs"
  define n where "n = length xs"
  define T where "T = sum_list (map (\<lambda>x. fval (fabs (fsub x a))) xs)"
  define D where "D = sum_list (map (\<lambda>x. \<bar>fval x - fval a\<bar>) xs)"
  have ne: "ds \<noteq> []" using assms(1) by (simp add: ds_def)
  have pd: "\<forall>d\<in>set ds. in_range d \<and> 0 \<le> fval d" by (simp add: ds_def in_range_fsub)
  have len: "length ds = n" by (simp add: ds_def n_def)
  from mean_bound [OF ne pd assms(4) [folded ds_def] assms(5)] assms(6)
  have fd: "\<forall>d\<in>set ds. is_fin d"
    and mb: "\<bar>fval md - arithmetic_mean ds\<bar> \<le> of_nat n * arithmetic_mean ds / 2 ^ 48 + 1 / 2 ^ 1075"
    by (simp_all add: len n_def)
  have fs: "\<forall>x\<in>set xs. is_fin (fsub x a)" using fd by (simp add: ds_def)
  then have fx: "\<forall>x\<in>set xs. is_fin x" using fsub_fin by blast
  from assms(1) obtain x0 where "x0 \<in> set xs" by (cases xs) auto
  with fs have "is_fin (fsub x0 a)" by blast
  then have fa: "is_fin a" using fsub_fin by blast
  have each: "\<forall>x\<in>set xs. \<bar>fval (fabs (fsub x a)) - \<bar>fval x - fval a\<bar>\<bar> \<le> \<bar>fval x - fval a\<bar> / 2 ^ 53"
  proof
    fix x assume x: "x \<in> set xs"
    with assms(2) fs have "in_range x" "is_fin (fsub x a)" by blast+
    from fsub_err [OF this(1) assms(3) this(2)]
    have "\<bar>fval (fsub x a) - (fval x - fval a)\<bar> \<le> \<bar>fval x - fval a\<bar> / 2 ^ 53" .
    moreover have "\<bar>\<bar>fval (fsub x a)\<bar> - \<bar>fval x - fval a\<bar>\<bar> \<le> \<bar>fval (fsub x a) - (fval x - fval a)\<bar>"
      by (rule abs_triangle_ineq3)
    ultimately show "\<bar>fval (fabs (fsub x a)) - \<bar>fval x - fval a\<bar>\<bar> \<le> \<bar>fval x - fval a\<bar> / 2 ^ 53"
      by simp
  qed
  from sum_list_rel [OF each] have TD: "\<bar>T - D\<bar> \<le> D / 2 ^ 53" by (simp only: T_def D_def)
  have D0: "0 \<le> D" unfolding D_def by (intro sum_list_nonneg) auto
  have n1: "1 \<le> n" using assms(1) by (cases xs) (simp_all add: n_def)
  have n48: "n \<le> 2 ^ 48" using assms(6) by (simp add: n_def)
  have am: "arithmetic_mean ds = T / of_nat n"
    by (simp add: arithmetic_mean_def ds_def T_def n_def comp_def)
  from mb have mm: "\<bar>fval md - T / of_nat n\<bar> \<le> of_nat n * (T / of_nat n) / 2 ^ 48 + 1 / 2 ^ 1075"
    by (simp only: am)
  from mad_arith [OF D0 n1 n48 TD mm]
  have "\<bar>fval md - mean_abs_deviation (fval a) xs\<bar>
           \<le> of_nat (length xs) * mean_abs_deviation (fval a) xs / 2 ^ 47 + 1 / 2 ^ 1075"
    unfolding mean_abs_deviation_def D_def n_def .
  with fa fx show ?thesis by blast
qed

lemma digit_val_nonneg: "is_digit c \<Longrightarrow> 0 \<le> digit_val c"
  by (auto simp: is_digit_def digit_val_def)

lemma foldl_digits_nonneg:
  "0 \<le> a \<Longrightarrow> \<forall>c\<in>set s. is_digit c \<Longrightarrow> 0 \<le> foldl (\<lambda>a c. 10 * a + digit_val c) a s"
  by (induction s arbitrary: a) (simp_all add: digit_val_nonneg)

lemma py_float_range: "in_range (py_float s) \<and> 0 \<le> fval (py_float s)"
proof -
  define ip where "ip = takeWhile is_digit s"
  define fp where "fp = (case dropWhile is_digit s of [] \<Rightarrow> [] | c # r \<Rightarrow> takeWhile is_digit r)"
  have pf: "py_float s = round_ratio (int_of_digits (ip @ fp)) (10 ^ length fp)"
    by (simp add: py_float_def Let_def ip_def fp_def)
  have "\<forall>c\<in>set ip. is_digit c" unfolding ip_def by (auto dest: set_takeWhileD)
  moreover have "\<forall>c\<in>set fp. is_digit c"
    unfolding fp_def by (auto dest: set_takeWhileD split: list.splits)
  ultimately have "\<forall>c\<in>set (ip @ fp). is_digit c" by auto
  then have n0: "0 \<le> int_of_digits (ip @ fp)"
    unfolding int_of_digits_def by (intro foldl_digits_nonneg) simp_all
  have d0: "(0::int) < 10 ^ length fp" by simp
  have "0 \<le> fval (py_float s)"
  proof (cases "py_float s")
    case (Fin m e)
    with pf have "round_ratio (int_of_digits (ip @ fp)) (10 ^ length fp) = Fin m e" by simp
    from round_ratio_sign [OF d0 n0 this] have "0 \<le> m" .
    with Fin show ?thesis by simp
  qed (simp_all add: fval_def)
  with in_range_round_ratio [OF d0] pf show ?thesis by simp
qed

lemma sample_times_range: "\<forall>x\<in>set (sample_times lines). in_range x \<and> 0 \<le> fval x"
  by (simp add: sample_times_def py_float_range)

lemma mean_in_range: "mean env xs = Inr q \<Longrightarrow> in_range q"
  unfolding mean_def bindE_Inr using in_range_fdiv by blast

section \<open>Latency statistics\<close>

lemma b_log_analysis_312: "analyze_lines sample_env_312 b_log_lines = Inr b_log_result"
  by code_simp

lemma c_log_analysis: "analyze_lines sample_env c_log_lines = Inr c_log_result"
  by code_simp

lemma c_log_analysis_312: "analyze_lines sample_env_312 c_log_lines = Inr c_log_result_312"
  by code_simp

lemma c_log_samples:
  "sample_times c_log_lines =
     [Fin 7205759403792794 (- 56), Fin 7205759403792794 (- 55), Fin 5404319552844595 (- 54)]"
  by code_simp

text \<open>
  Claim C5 says that the average is the arithmetic mean of the samples.  For the three
  samples of 0.1 ms of \<open>b.log\<close> the arithmetic mean is the float 0.1 itself, but the
  average that is computed is 0.10000000000000002, with either summation: the float sum of
  three times 0.1 is 0.30000000000000004.
\<close>

theorem average_is_not_the_mean:
  "analyze_lines sample_env b_log_lines = Inr b_log_result \<and>
   analyze_lines sample_env_312 b_log_lines = Inr b_log_result \<and>
   sample_times b_log_lines =
     [Fin 7205759403792794 (- 56), Fin 7205759403792794 (- 56), Fin 7205759403792794 (- 56)] \<and>
   arithmetic_mean (sample_times b_log_lines) = fval (Fin 7205759403792794 (- 56)) \<and>
   avg_time (stats b_log_result) = Fin 7205759403792795 (- 56) \<and>
   fval (avg_time (stats b_log_result)) \<noteq> arithmetic_mean (sample_times b_log_lines)"
proof -
  have m: "arithmetic_mean (sample_times b_log_lines) = fval (Fin 7205759403792794 (- 56))"
    by (simp add: b_log_samples arithmetic_mean_def)
  have a: "avg_time (stats b_log_result) = Fin 7205759403792795 (- 56)"
    by (simp add: b_log_result_def)
  have "fval (Fin 7205759403792795 (- 56)) \<noteq> fval (Fin 7205759403792794 (- 56))"
    by simp
  with m a b_log_analysis b_log_analysis_312 b_log_samples show ?thesis by simp
qed

text \<open>
  Claim C5, amended.  With no samples the minimum, maximum, average and mean deviation are
  all 0.  Otherwise the minimum and the maximum are the least and the greatest sample.  The
  average is a float near the arithmetic mean of the samples: when it is finite, and for at
  most \<open>2 ^ 48\<close> samples, it differs from the arithmetic mean by at most \<open>n / 2 ^ 48\<close> times
  the mean, for \<open>n\<close> samples, and \<open>2 ^ - 1075\<close>, with either summation.  The mean deviation is
  likewise near the mean of the absolute differences between the samples and the average that
  was computed, within \<open>n / 2 ^ 47\<close> times that mean and \<open>2 ^ - 1075\<close>.
\<close>

theorem latency_statistics:
  assumes "analyze_lines env lines = Inr r"
  shows "(sample_times lines = [] \<longrightarrow>
            min_time (stats r) = fzero \<and> max_time (stats r) = fzero
          \<and> avg_time (stats r) = fzero \<and> mdev (stats r) = fzero)
       \<and> (sample_times lines \<noteq> [] \<longrightarrow>
            is_least (min_time (stats r)) (sample_times lines)
          \<and> is_greatest (max_time (stats r)) (sample_times lines)
          \<and> (is_fin (avg_time (stats r)) \<and> length (sample_times lines) \<le> 2 ^ 48 \<longrightarrow>
               \<bar>fval (avg_time (stats r)) - arithmetic_mean (sample_times lines)\<bar>
                 \<le> of_nat (length (sample_times lines)) * arithmetic_mean (sample_times lines)
                      / 2 ^ 48 + 1 / 2 ^ 1075)
          \<and> (is_fin (mdev (stats r)) \<and> length (sample_times lines) \<le> 2 ^ 48 \<longrightarrow>
               \<bar>fval (mdev (stats r))
                  - mean_abs_deviation (fval (avg_time (stats r))) (sample_times lines)\<bar>
                 \<le> of_nat (length (sample_times lines))
                      * mean_abs_deviation (fval (avg_time (stats r))) (sample_times lines)
                      / 2 ^ 47 + 1 / 2 ^ 1075))"
proof (cases "sample_times lines = []")
  case True
  with calc_stats_Inr [OF analyze_lines_Inr(1) [OF assms]] show ?thesis by simp
next
  case False
  note cs = calc_stats_Inr [OF analyze_lines_Inr(1) [OF assms]]
  let ?xs = "sample_times lines"
  note mm = analyzed_min_max [OF assms False]
  from cs(4) False have av: "mean env ?xs = Inr (avg_time (stats r))" by simp
  from cs(5) False
  have md: "mean env (map (\<lambda>x. fabs (fsub x (avg_time (stats r)))) ?xs) = Inr (mdev (stats r))"
    by simp
  have rg: "\<forall>x\<in>set ?xs. in_range x \<and> 0 \<le> fval x" by (rule sample_times_range)
  then have rg': "\<forall>x\<in>set ?xs. in_range x" by blast
  have 1: "\<bar>fval (avg_time (stats r)) - arithmetic_mean ?xs\<bar>
             \<le> of_nat (length ?xs) * arithmetic_mean ?xs / 2 ^ 48 + 1 / 2 ^ 1075"
    if "is_fin (avg_time (stats r))" "length ?xs \<le> 2 ^ 48"
    using mean_bound [OF False rg av that] by blast
  have 2: "\<bar>fval (mdev (stats r)) - mean_abs_deviation (fval (avg_time (stats r))) ?xs\<bar>
             \<le> of_nat (length ?xs) * mean_abs_deviation (fval (avg_time (stats r))) ?xs
                  / 2 ^ 47 + 1 / 2 ^ 1075"
    if "is_fin (mdev (stats r))" "length ?xs \<le> 2 ^ 48"
    using mdev_bound [OF False rg' mean_in_range [OF av] md that] by blast
  from False mm 1 2 show ?thesis by blast
qed

theorem latency_statistics_witness:
  "sample_times c_log_lines \<noteq> [] \<and>
   length (sample_times c_log_lines) \<le> 2 ^ 48 \<and>
   analyze_lines sample_env_312 c_log_lines = Inr c_log_result_312 \<and>
   is_fin (avg_time (stats c_log_result_312)) \<and> is_fin (mdev (stats c_log_result_312)) \<and>
   avg_time (stats c_log_result_312) = Fin 7205759403792793 (- 55) \<and>
   is_least (min_time (stats c_log_result_312)) (sample_times c_log_lines) \<and>
   is_greatest (max_time (stats c_log_result_312)) (sample_times c_log_lines) \<and>
   \<bar>fval (avg_time (stats c_log_result_312)) - arithmetic_mean (sample_times c_log_lines)\<bar>
     \<le> of_nat (length (sample_times c_log_lines)) * arithmetic_mean (sample_times c_log_lines)
          / 2 ^ 48 + 1 / 2 ^ 1075 \<and>
   \<bar>fval (mdev (stats c_log_result_312))
      - mean_abs_deviation (fval (avg_time (stats c_log_result_312))) (sample_times c_log_lines)\<bar>
     \<le> of_nat (length (sample_times c_log_lines))
          * mean_abs_deviation (fval (avg_time (stats c_log_result_312))) (sample_times c_log_lines)
          / 2 ^ 47 + 1 / 2 ^ 1075 \<and>
   analyze_lines sample_env c_log_lines = Inr c_log_result \<and>
   is_fin (avg_time (stats c_log_result)) \<and>
   avg_time (stats c_log_result) = Fin 7205759403792795 (- 55) \<and>
   \<bar>fval (avg_time (stats c_log_result)) - arithmetic_mean (sample_times c_log_lines)\<bar>
     \<le> of_nat (length (sample_times c_log_lines)) * arithmetic_mean (sample_times c_log_lines)
          / 2 ^ 48 + 1 / 2 ^ 1075"
proof -
  have ne: "sample_times c_log_lines \<noteq> []" by (simp add: c_log_samples)
  have len: "length (sample_times c_log_lines) \<le> 2 ^ 48" by (simp add: c_log_samples)
  have f1: "is_fin (avg_time (stats c_log_result_312))" "is_fin (mdev (stats c_log_result_312))"
    and a1: "avg_time (stats c_log_result_312) = Fin 7205759403792793 (- 55)"
    by (simp_all add: c_log_result_312_def)
  have f2: "is_fin (avg_time (stats c_log_result))"
    and a2: "avg_time (stats c_log_result) = Fin 7205759403792795 (- 55)"
    by (simp_all add: c_log_result_def)
  note t1 = latency_statistics [OF c_log_analysis_312]
  note t2 = latency_statistics [OF c_log_analysis]
  from t1 ne have l1: "is_least (min_time (stats c_log_result_312)) (sample_times c_log_lines)"
    and g1: "is_greatest (max_time (stats c_log_result_312)) (sample_times c_log_lines)"
    by blast+
  from t1 ne f1(1) len
  have b1: "\<bar>fval (avg_time (stats c_log_result_312)) - arithmetic_mean (sample_times c_log_lines)\<bar>
     \<le> of_nat (length (sample_times c_log_lines)) * arithmetic_mean (sample_times c_log_lines)
          / 2 ^ 48 + 1 / 2 ^ 1075"
    by blast
  from t1 ne f1(2) len
  have d1: "\<bar>fval (mdev (stats c_log_result_312))
      - mean_abs_deviation (fval (avg_time (stats c_log_result_312))) (sample_times c_log_lines)\<bar>
     \<le> of_nat (length (sample_times c_log_lines))
          * mean_abs_deviation (fval (avg_time (stats c_log_result_312))) (sample_times c_log_lines)
          / 2 ^ 47 + 1 / 2 ^ 1075"
    by blast
  from t2 ne f2 len
  have b2: "\<bar>fval (avg_time (stats c_log_result)) - arithmetic_mean (sample_times c_log_lines)\<bar>
     \<le> of_nat (length (sample_times c_log_lines)) * arithmetic_mean (sample_times c_log_lines)
          / 2 ^ 48 + 1 / 2 ^ 1075"
    by blast
  from ne len c_log_analysis_312 f1 a1 l1 g1 b1 d1 c_log_analysis f2 a2 b2
  show ?thesis by blast
qed

section \<open>The average and the range of the samples\<close>

text \<open>
  Claim C6 says that the average lies between the minimum and the maximum whenever there is
  a sample.  It fails for the three samples of 0.1 ms of \<open>b.log\<close>, with either summation:
  the float sum of three times 0.1 is 0.30000000000000004, and a third of it is
  0.10000000000000002, above the maximum 0.1.
\<close>

theorem average_above_maximum:
  "analyze_lines sample_env b_log_lines = Inr b_log_result \<and>
   analyze_lines sample_env_312 b_log_lines = Inr b_log_result \<and>
   sample_times b_log_lines \<noteq> [] \<and>
   max_time (stats b_log_result) = Fin 7205759403792794 (- 56) \<and>
   avg_time (stats b_log_result) = Fin 7205759403792795 (- 56) \<and>
   flt (max_time (stats b_log_result)) (avg_time (stats b_log_result)) \<and>
   \<not> fle (avg_time (stats b_log_result)) (max_time (stats b_log_result))"
proof -
  have "flt (max_time (stats b_log_result)) (avg_time (stats b_log_result))" by code_simp
  moreover have "\<not> fle (avg_time (stats b_log_result)) (max_time (stats b_log_result))" by code_simp
  moreover have "max_time (stats b_log_result) = Fin 7205759403792794 (- 56)"
    "avg_time (stats b_log_result) = Fin 7205759403792795 (- 56)"
    by (simp_all add: b_log_result_def)
  ultimately show ?thesis using b_log_analysis b_log_analysis_312 by (simp add: b_log_samples)
qed

text \<open>
  Claim C6, amended.  Whenever there is a sample the minimum is at most the maximum, and the
  average lies between them up to rounding: when it is finite, and for \<open>n\<close> samples with \<open>n\<close>
  at most \<open>2 ^ 48\<close>, the average is at least the minimum times \<open>1 - n / 2 ^ 48\<close> less
  \<open>2 ^ - 1075\<close>, and at most the maximum times \<open>1 + n / 2 ^ 48\<close> plus \<open>2 ^ - 1075\<close>, with
  either summation.
\<close>

theorem average_within_rounding:
  assumes "analyze_lines env lines = Inr r" and "sample_times lines \<noteq> []"
  shows "fle (min_time (stats r)) (max_time (stats r))
       \<and> (is_fin (avg_time (stats r)) \<and> length (sample_times lines) \<le> 2 ^ 48 \<longrightarrow>
            fval (min_time (stats r)) * (1 - of_nat (length (sample_times lines)) / 2 ^ 48)
              - 1 / 2 ^ 1075 \<le> fval (avg_time (stats r))
          \<and> fval (avg_time (stats r))
              \<le> fval (max_time (stats r)) * (1 + of_nat (length (sample_times lines)) / 2 ^ 48)
                  + 1 / 2 ^ 1075)"
proof -
  let ?xs = "sample_times lines"
  define n where "n = length ?xs"
  define mu where "mu = arithmetic_mean ?xs"
  define eps where "eps = (of_nat n :: rat) / 2 ^ 48"
  define E where "E = (1::rat) / 2 ^ 1075"
  define lo where "lo = fval (min_time (stats r))"
  define hi where "hi = fval (max_time (stats r))"
  define av where "av = fval (avg_time (stats r))"
  note mm = analyzed_min_max [OF assms]
  have 1: "fle (min_time (stats r)) (max_time (stats r))"
    using mm by (auto simp: is_least_def is_greatest_def list_all_iff)
  have 2: "lo * (1 - eps) - E \<le> av \<and> av \<le> hi * (1 + eps) + E"
    if fin: "is_fin (avg_time (stats r))" and len: "length ?xs \<le> 2 ^ 48"
  proof -
    note cs = calc_stats_Inr [OF analyze_lines_Inr(1) [OF assms(1)]]
    from cs(4) assms(2) have m: "mean env ?xs = Inr (avg_time (stats r))" by simp
    note mb = mean_bound [OF assms(2) sample_times_range m fin len]
    from mb have fx: "\<forall>x\<in>set ?xs. is_fin x" by blast
    have eq: "of_nat n * mu / 2 ^ 48 = mu * eps" by (simp add: eps_def)
    from mb have "\<bar>av - mu\<bar> \<le> of_nat n * mu / 2 ^ 48 + E"
      unfolding av_def mu_def n_def E_def by blast
    then have d: "\<bar>av - mu\<bar> \<le> mu * eps + E" unfolding eq .
    from mm fx have fmn: "is_fin (min_time (stats r))" and fmx: "is_fin (max_time (stats r))"
      by (auto simp: is_least_def is_greatest_def)
    from mm(1) fx have "\<forall>x\<in>set ?xs. is_fin x \<and> fle (min_time (stats r)) x"
      by (auto simp: is_least_def list_all_iff)
    from sum_list_lower [OF fmn this] have sl: "lo * of_nat n \<le> sum_list (map fval ?xs)"
      by (simp add: lo_def n_def)
    from mm(2) fx have "\<forall>x\<in>set ?xs. is_fin x \<and> fle x (max_time (stats r))"
      by (auto simp: is_greatest_def list_all_iff)
    from sum_list_upper [OF fmx this] have su: "sum_list (map fval ?xs) \<le> hi * of_nat n"
      by (simp add: hi_def n_def)
    have npos: "(0::rat) < of_nat n" using assms(2) by (simp add: n_def)
    from sl npos have l: "lo \<le> mu"
      by (simp add: mu_def arithmetic_mean_def n_def [symmetric] pos_le_divide_eq)
    from su npos have u: "mu \<le> hi"
      by (simp add: mu_def arithmetic_mean_def n_def [symmetric] pos_divide_le_eq)
    have e0: "0 \<le> eps" by (simp add: eps_def)
    from len have "(of_nat n :: rat) \<le> of_nat (2 ^ 48)" unfolding n_def by (simp only: of_nat_le_iff)
    then have e1: "eps \<le> 1" by (simp add: eps_def)
    from l have "0 \<le> mu - lo" by simp
    with e1 have "(mu - lo) * eps \<le> (mu - lo) * 1" by (intro mult_left_mono)
    then have le: "mu * eps - lo * eps \<le> mu - lo" by (simp add: algebra_simps)
    have ue: "mu * eps \<le> hi * eps" using u e0 by (rule mult_right_mono)
    from d l u le ue have "lo - lo * eps - E \<le> av" "av \<le> hi + hi * eps + E" by linarith+
    moreover have "lo * (1 - eps) = lo - lo * eps" "hi * (1 + eps) = hi + hi * eps"
      by (simp_all add: algebra_simps)
    ultimately show ?thesis by simp
  qed
  from 1 2 show ?thesis unfolding lo_def hi_def av_def eps_def E_def n_def by blast
qed

theorem average_within_rounding_witness:
  "analyze_lines sample_env b_log_lines = Inr b_log_result \<and>
   sample_times b_log_lines \<noteq> [] \<and>
   is_fin (avg_time (stats b_log_result)) \<and>
   length (sample_times b_log_lines) \<le> 2 ^ 48 \<and>
   fle (min_time (stats b_log_result)) (max_time (stats b_log_result)) \<and>
   fval (min_time (stats b_log_result)) * (1 - of_nat (length (sample_times b_log_lines)) / 2 ^ 48)
     - 1 / 2 ^ 1075 \<le> fval (avg_time (stats b_log_result)) \<and>
   fval (avg_time (stats b_log_result))
     \<le> fval (max_time (stats b_log_result)) * (1 + of_nat (length (sample_times b_log_lines)) / 2 ^ 48)
         + 1 / 2 ^ 1075 \<and>
   analyze_lines sample_env_312 c_log_lines = Inr c_log_result_312 \<and>
   sample_times c_log_lines \<noteq> [] \<and>
   is_fin (avg_time (stats c_log_result_312)) \<and>
   length (sample_times c_log_lines) \<le> 2 ^ 48 \<and>
   fval (min_time (stats c_log_result_312)) * (1 - of_nat (length (sample_times c_log_lines)) / 2 ^ 48)
     - 1 / 2 ^ 1075 \<le> fval (avg_time (stats c_log_result_312)) \<and>
   fval (avg_time (stats c_log_result_312))
     \<le> fval (max_time (stats c_log_result_312)) * (1 + of_nat (length (sample_times c_log_lines)) / 2 ^ 48)
         + 1 / 2 ^ 1075"
proof -
  have ne: "sample_times b_log_lines \<noteq> []" and len: "length (sample_times b_log_lines) \<le> 2 ^ 48"
    by (simp_all add: b_log_samples)
  have fin: "is_fin (avg_time (stats b_log_result))" by (simp add: b_log_result_def)
  have ne': "sample_times c_log_lines \<noteq> []" and len': "length (sample_times c_log_lines) \<le> 2 ^ 48"
    by (simp_all add: c_log_samples)
  have fin': "is_fin (avg_time (stats c_log_result_312))" by (simp add: c_log_result_312_def)
  note t = average_within_rounding [OF b_log_analysis ne]
  note t' = average_within_rounding [OF c_log_analysis_312 ne']
  from t have 1: "fle (min_time (stats b_log_result)) (max_time (stats b_log_result))" by blast
  from t fin len
  have 2: "fval (min_time (stats b_log_result)) * (1 - of_nat (length (sample_times b_log_lines)) / 2 ^ 48)
     - 1 / 2 ^ 1075 \<le> fval (avg_time (stats b_log_result))"
    and 3: "fval (avg_time (stats b_log_result))
     \<le> fval (max_time (stats b_log_result)) * (1 + of_nat (length (sample_times b_log_lines)) / 2 ^ 48)
         + 1 / 2 ^ 1075"
    by blast+
  from t' fin' len'
  have 4: "fval (min_time (stats c_log_result_312)) * (1 - of_nat (length (sample_times c_log_lines)) / 2 ^ 48)
     - 1 / 2 ^ 1075 \<le> fval (avg_time (stats c_log_result_312))"
    and 5: "fval (avg_time (stats c_log_result_312))
     \<le> fval (max_time (stats c_log_result_312)) * (1 + of_nat (length (sample_times c_log_lines)) / 2 ^ 48)
         + 1 / 2 ^ 1075"
    by blast+
  from b_log_analysis ne fin len 1 2 3 c_log_analysis_312 ne' fin' len' 4 5 show ?thesis by blast
qed

section \<open>Timestamps and the time range\<close>

lemma late_analysis: "analyze_lines sample_env late_lines = Inl ValueError"
  by code_simp

text \<open>
  Claim C10.  For every analysed file \<open>has_timestamps\<close> holds exactly when some non-blank
  line begins with a bracketed timestamp, and the time range is present exactly when
  \<open>has_timestamps\<close> holds.  In that case at least one timestamp was collected and the range is
  made of the converted least and greatest timestamps; otherwise the range is absent.
\<close>

theorem time_range_iff_timestamps:
  assumes "analyze_lines env lines = Inr r"
  shows "has_timestamps r = list_ex (\<lambda>l. nonblank l \<and> has_ts_prefix l) lines
       \<and> (time_range r \<noteq> None) = has_timestamps r
       \<and> (if has_timestamps r
          then timestamp_values lines \<noteq> []
               \<and> (\<exists>lo hi t1 t2. is_least lo (timestamp_values lines)
                      \<and> is_greatest hi (timestamp_values lines)
                      \<and> fromtimestamp env lo = Inr t1 \<and> fromtimestamp env hi = Inr t2
                      \<and> time_range r = Some (t1, t2))
          else time_range r = None)"
proof -
  let ?ts = "timestamp_values lines"
  note a = analyze_lines_Inr [OF assms]
  have 1: "has_timestamps r = list_ex (\<lambda>l. nonblank l \<and> has_ts_prefix l) lines"
    unfolding a(4) by (auto simp: detect_timestamps_def list_ex_iff has_ts_prefix_def)
  have ht: "has_timestamps r \<longleftrightarrow> ?ts \<noteq> []"
    unfolding a(4) by (rule detect_timestamps_iff)
  show ?thesis
  proof (cases "?ts = []")
    case True
    with a(2) have "time_range r = None" by (simp add: calc_time_range_def)
    with True ht 1 show ?thesis by simp
  next
    case False
    from py_min_least [OF False timestamp_values_not_nan]
    obtain lo where lo: "py_min ?ts = Inr lo" "is_least lo ?ts" by blast
    from py_max_greatest [OF False timestamp_values_not_nan]
    obtain hi where hi: "py_max ?ts = Inr hi" "is_greatest hi ?ts" by blast
    from a(2) False lo(1) hi(1) obtain t1 t2 where
      "fromtimestamp env lo = Inr t1" "fromtimestamp env hi = Inr t2"
      "time_range r = Some (t1, t2)"
      by (auto simp: calc_time_range_def bindE_def split: sum.splits)
    with lo(2) hi(2) False ht 1 show ?thesis by auto
  qed
qed

theorem time_range_iff_timestamps_witness:
  "analyze_lines sample_env b_log_lines = Inr b_log_result \<and>
   has_timestamps b_log_result \<and> time_range b_log_result \<noteq> None \<and>
   timestamp_values b_log_lines \<noteq> []"
proof -
  have "has_timestamps b_log_result" by (simp add: b_log_result_def)
  with time_range_iff_timestamps [OF b_log_analysis] b_log_analysis show ?thesis by auto
qed

section \<open>Discovery\<close>

lemma filter_io_fst: "fst (filter_io c fs) = filter (\<lambda>f. fst (c f)) fs"
  by (induction fs) (simp_all add: Let_def)

lemma sniff_ok_eq: "sniff_ok env = (\<lambda>f. fst (is_ping_file env f))"
  by (rule ext) (simp add: sniff_ok_def)

lemma guarded_sniff:
  "(\<lambda>f. fst (if is_log_name f then is_ping_file env f else (False, [])))
     = (\<lambda>f. is_log_name f \<and> sniff_ok env f)"
  by (rule ext) (simp add: sniff_ok_def)

lemma arg_step_files: "fst (arg_step env acc arg) = fst acc @ arg_candidates env arg"
  by (simp add: arg_step_def arg_candidates_def dir_pattern_step_def Let_def filter_io_fst
      sniff_ok_eq guarded_sniff [unfolded sniff_ok_eq])

lemma foldl_arg_step_files:
  "fst (foldl (arg_step env) acc args) = fst acc @ concat (map (arg_candidates env) args)"
  by (induction args arbitrary: acc) (simp_all add: arg_step_files)

lemma discover_files:
  "args \<noteq> [] \<Longrightarrow> fst (discover env args) = concat (map (arg_candidates env) args)"
  by (simp add: discover_def foldl_arg_step_files)

section \<open>The results dictionary\<close>

lemma dict_set_keys: "map fst (dict_set d k v) = add_new (map fst d) k"
  by (induction d) (auto simp: add_new_def)

lemma dict_set_ne: "dict_set d k v \<noteq> []"
  by (cases d) auto

lemma add_new_distinct: "distinct acc \<Longrightarrow> distinct (add_new acc x)"
  by (simp add: add_new_def)

lemma foldl_add_new_distinct: "distinct acc \<Longrightarrow> distinct (foldl add_new acc xs)"
  by (induction xs arbitrary: acc) (simp_all add: add_new_distinct)

lemma foldl_add_new_set: "set (foldl add_new acc xs) = set acc \<union> set xs"
  by (induction xs arbitrary: acc) (auto simp: add_new_def)

lemma first_occurrences_distinct: "distinct (first_occurrences xs)"
  by (simp add: first_occurrences_def foldl_add_new_distinct)

lemma first_occurrences_set: "set (first_occurrences xs) = set xs"
  by (simp add: first_occurrences_def foldl_add_new_set)

lemma analyze_all_keys:
  "analyze_all env res err files = Inr (res', err') \<Longrightarrow>
     map fst res' = foldl add_new (map fst res) (filter (usable env) files)"
proof (induction files arbitrary: res err)
  case Nil
  then show ?case by simp
next
  case (Cons f fs)
  show ?case
  proof (cases "analyze_ping_file env f")
    case (Inl e)
    with Cons.prems show ?thesis by simp
  next
    case (Inr p)
    obtain ro msgs where p: "p = (ro, msgs)" by (cases p)
    show ?thesis
    proof (cases ro)
      case None
      with Inr p Cons.prems have "analyze_all env res (err @ msgs) fs = Inr (res', err')" by simp
      from Cons.IH [OF this] Inr p None show ?thesis by (simp add: usable_def)
    next
      case (Some r)
      with Inr p Cons.prems
      have "analyze_all env (dict_set res f r) (err @ msgs) fs = Inr (res', err')" by simp
      from Cons.IH [OF this] Inr p Some show ?thesis by (simp add: usable_def dict_set_keys)
    qed
  qed
qed

lemma analyze_all_values:
  "analyze_all env res err files = Inr (res', err') \<Longrightarrow>
     \<forall>(f, r)\<in>set res. \<exists>m. analyze_ping_file env f = Inr (Some r, m) \<Longrightarrow>
     \<forall>(f, r)\<in>set res'. \<exists>m. analyze_ping_file env f = Inr (Some r, m)"
proof (induction files arbitrary: res err)
  case Nil
  then show ?case by simp
next
  case (Cons f fs)
  show ?case
  proof (cases "analyze_ping_file env f")
    case (Inl e)
    with Cons.prems show ?thesis by simp
  next
    case (Inr p)
    obtain ro msgs where p: "p = (ro, msgs)" by (cases p)
    show ?thesis
    proof (cases ro)
      case None
      with Inr p Cons.prems have "analyze_all env res (err @ msgs) fs = Inr (res', err')" by simp
      from Cons.IH [OF this Cons.prems(2)] show ?thesis .
    next
      case (Some r)
      with Inr p Cons.prems
      have a: "analyze_all env (dict_set res f r) (err @ msgs) fs = Inr (res', err')" by simp
      have "set (dict_set res f r) \<subseteq> insert (f, r) (set res)"
        by (induction res) auto
      with Cons.prems(2) Inr p Some
      have "\<forall>(f, r)\<in>set (dict_set res f r). \<exists>m. analyze_ping_file env f = Inr (Some r, m)"
        by fastforce
      from Cons.IH [OF a this] show ?thesis .
    qed
  qed
qed

lemma analyze_all_Inl:
  "analyze_all env res err files = Inl (e, err') \<Longrightarrow> \<exists>f\<in>set files. raises env f"
proof (induction files arbitrary: res err)
  case Nil
  then show ?case by simp
next
  case (Cons f fs)
  then show ?case
    by (cases "analyze_ping_file env f") (auto simp: raises_def split: prod.splits option.splits)
qed

lemma analyze_all_total:
  "\<not> list_ex (raises env) files \<Longrightarrow> \<exists>res' err'. analyze_all env res err files = Inr (res', err')"
proof (induction files arbitrary: res err)
  case Nil
  then show ?case by simp
next
  case (Cons f fs)
  then show ?case
    by (cases "analyze_ping_file env f") (auto simp: raises_def split: prod.splits option.splits)
qed

section \<open>The lines of the report\<close>

lemma heading_count_append: "heading_count (xs @ ys) = heading_count xs + heading_count ys"
  by (simp add: heading_count_def)

lemma heading_count_section: "heading_count (md_section env entry) = 1"
  by (simp add: md_section_def heading_count_def heading_prefix_def Let_def strip_prefix_Some
      split: option.splits prod.splits)

lemma heading_count_markdown: "heading_count (markdown_lines env results) = length results"
  by (induction results)
    (simp_all add: markdown_lines_def heading_count_append heading_count_section,
     simp add: heading_count_def)

lemma discover_candidates: "fst (discover env args) = candidate_list env args"
  by (simp add: discover_def candidate_list_def foldl_arg_step_files default_step_def Let_def
      filter_io_fst sniff_ok_eq)

lemma first_occurrences_Nil: "first_occurrences xs = [] \<longleftrightarrow> xs = []"
  using first_occurrences_set [of xs] by (metis set_empty)

lemma analyze_all_empty:
  assumes "analyze_all env [] err files = Inr (res, err')"
  shows "res = [] \<longleftrightarrow> \<not> list_ex (usable env) files"
proof -
  from analyze_all_keys [OF assms]
  have "map fst res = first_occurrences (filter (usable env) files)"
    by (simp add: first_occurrences_def)
  then have "res = [] \<longleftrightarrow> filter (usable env) files = []"
    using first_occurrences_Nil [of "filter (usable env) files"] by (metis map_is_Nil_conv)
  then show ?thesis by (simp add: filter_empty_conv list_ex_iff)
qed

lemma a_txt_analysis: "analyze_ping_file sample_env ''a.txt'' = Inr (Some a_txt_result, [])"
  by code_simp

lemma b_log_file_analysis: "analyze_ping_file sample_env ''b.log'' = Inr (Some b_log_result, [])"
  by code_simp

lemma late_file_analysis: "analyze_ping_file sample_env ''late.txt'' = Inl ValueError"
  by code_simp

lemma sample_candidates:
  "candidate_list sample_env [''a.txt'', ''a.txt''] = [''a.txt'', ''a.txt'']"
  "candidate_list sample_env [''a.txt'', ''b.log'', ''a.txt''] = [''a.txt'', ''b.log'', ''a.txt'']"
  "candidate_list sample_env [''a.txt'', ''late.txt''] = [''a.txt'', ''late.txt'']"
  "candidate_list sample_env [''a.txt'', ''logs''] = [''a.txt'']"
  "candidate_list sample_env [''logs''] = []"
  by code_simp+

lemma main_a_a:
  "main sample_env [''a.txt'', ''a.txt''] =
     \<lparr>stdout = [join_lines (md_section sample_env (''a.txt'', a_txt_result))], stderr = [],
      status = 0, uncaught = None\<rparr>"
  by code_simp

lemma main_a_b_a:
  "main sample_env [''a.txt'', ''b.log'', ''a.txt''] =
     \<lparr>stdout = [join_lines (md_section sample_env (''a.txt'', a_txt_result)
                             @ md_section sample_env (''b.log'', b_log_result))],
      stderr = [], status = 0, uncaught = None\<rparr>"
  by code_simp

lemma main_a_late:
  "main sample_env [''a.txt'', ''late.txt''] =
     \<lparr>stdout = [], stderr = [], status = 1, uncaught = Some ValueError\<rparr>"
  by code_simp

lemma main_a_logs:
  "main sample_env [''a.txt'', ''logs''] =
     \<lparr>stdout = [join_lines (md_section sample_env (''a.txt'', a_txt_result))], stderr = [],
      status = 0, uncaught = None\<rparr>"
  by code_simp

lemma main_logs:
  "main sample_env [''logs''] =
     \<lparr>stdout = [],
      stderr = [''Warning: No ping files found in directory '' @ quoted ''logs'',
                ''Error: No ping files found to analyze.''],
      status = 1, uncaught = None\<rparr>"
  by code_simp

lemma main_no_candidates:
  assumes "candidate_list env args = []"
  shows "main env args =
           \<lparr>stdout = [],
            stderr = snd (discover env args) @ [''Error: No ping files found to analyze.''],
            status = 1, uncaught = None\<rparr>"
  using assms by (simp add: main_def Let_def discover_candidates)

lemma main_raise:
  assumes "candidate_list env args \<noteq> []"
    and "analyze_all env [] (snd (discover env args)) (candidate_list env args) = Inl (e, err')"
  shows "main env args = \<lparr>stdout = [], stderr = err', status = 1, uncaught = Some e\<rparr>"
  using assms by (simp add: main_def Let_def discover_candidates)

lemma main_no_results:
  assumes "candidate_list env args \<noteq> []"
    and "analyze_all env [] (snd (discover env args)) (candidate_list env args) = Inr ([], err')"
  shows "main env args =
           \<lparr>stdout = [], stderr = err' @ [''No valid ping data found in input files.''],
            status = 1, uncaught = None\<rparr>"
  using assms by (simp add: main_def Let_def discover_candidates)

lemma main_report:
  assumes "candidate_list env args \<noteq> []"
    and "analyze_all env [] (snd (discover env args)) (candidate_list env args) = Inr (results, err')"
    and "results \<noteq> []"
  shows "main env args =
           \<lparr>stdout = [generate_markdown env results], stderr = err', status = 0,
            uncaught = None\<rparr>"
  using assms by (simp add: main_def Let_def discover_candidates)

lemma status_0_report:
  assumes "status (main env args) = 0"
  shows "\<exists>results err'. results \<noteq> []
           \<and> analyze_all env [] (snd (discover env args)) (candidate_list env args)
               = Inr (results, err')
           \<and> stdout (main env args) = [generate_markdown env results]"
proof (cases "candidate_list env args = []")
  case True
  from main_no_candidates [OF True] assms show ?thesis by simp
next
  case False
  show ?thesis
  proof (cases "analyze_all env [] (snd (discover env args)) (candidate_list env args)")
    case (Inl p)
    obtain e err' where "p = (e, err')" by (cases p)
    with Inl main_raise [OF False, of e err'] assms show ?thesis by simp
  next
    case (Inr p)
    obtain results err' where p: "p = (results, err')" by (cases p)
    show ?thesis
    proof (cases "results = []")
      case True
      with Inr p main_no_results [OF False, of err'] assms show ?thesis by simp
    next
      case ne: False
      from Inr p have aa: "analyze_all env [] (snd (discover env args)) (candidate_list env args)
          = Inr (results, err')" by simp
      from main_report [OF False aa ne] have "stdout (main env args) = [generate_markdown env results]"
        by simp
      with ne aa show ?thesis by blast
    qed
  qed
qed

lemma status_not_0:
  assumes "status (main env args) \<noteq> 0"
  shows "status (main env args) = 1 \<and> stdout (main env args) = []"
proof (cases "candidate_list env args = []")
  case True
  from main_no_candidates [OF True] show ?thesis by simp
next
  case False
  show ?thesis
  proof (cases "analyze_all env [] (snd (discover env args)) (candidate_list env args)")
    case (Inl p)
    obtain e err' where "p = (e, err')" by (cases p)
    with Inl main_raise [OF False, of e err'] show ?thesis by simp
  next
    case (Inr p)
    obtain results err' where p: "p = (results, err')" by (cases p)
    show ?thesis
    proof (cases "results = []")
      case True
      with Inr p main_no_results [OF False, of err'] show ?thesis by simp
    next
      case ne: False
      from Inr p have aa: "analyze_all env [] (snd (discover env args)) (candidate_list env args)
          = Inr (results, err')" by simp
      from main_report [OF False aa ne] assms show ?thesis by simp
    qed
  qed
qed

section \<open>Duplicate candidates and the sections of the report\<close>

text \<open>
  Claim C1 says that a file found twice gives two sections of the report.  The candidate list
  does keep both occurrences, but the results are keyed by file name: for the arguments
  \<open>a.txt a.txt\<close> the report consists of the single section of \<open>a.txt\<close>.
\<close>

theorem duplicate_file_one_section:
  "candidate_list sample_env [''a.txt'', ''a.txt''] = [''a.txt'', ''a.txt''] \<and>
   fst (discover sample_env [''a.txt'', ''a.txt'']) = [''a.txt'', ''a.txt''] \<and>
   stdout (main sample_env [''a.txt'', ''a.txt''])
     = [join_lines (md_section sample_env (''a.txt'', a_txt_result))] \<and>
   heading_count (md_section sample_env (''a.txt'', a_txt_result)) = 1"
  by (simp add: sample_candidates discover_candidates main_a_a heading_count_section)

text \<open>
  Claim C1, amended.  The candidate list is the concatenation of what each argument
  contributes, so every occurrence of a file is kept as found and analysed.  When the run
  succeeds, the report is the concatenation of one section per distinct file with a usable
  analysis, in the order of the first occurrences in the candidate list; each section shows
  the analysis of its file.
\<close>

theorem report_sections:
  assumes "status (main env args) = 0"
  shows "fst (discover env args) = candidate_list env args
       \<and> (\<exists>results.
             stdout (main env args) = [join_lines (concat (map (md_section env) results))]
           \<and> map fst results = first_occurrences (filter (usable env) (candidate_list env args))
           \<and> distinct (map fst results)
           \<and> heading_count (concat (map (md_section env) results)) = length results
           \<and> list_all (\<lambda>entry. usable env (fst entry)
                  \<and> analyze_ping_file env (fst entry) = Inr (Some (snd entry), [])) results)"
proof -
  from status_0_report [OF assms] obtain results err' where
    ne: "results \<noteq> []"
    and aa: "analyze_all env [] (snd (discover env args)) (candidate_list env args) = Inr (results, err')"
    and m: "stdout (main env args) = [generate_markdown env results]"
    by blast
  have keys: "map fst results = first_occurrences (filter (usable env) (candidate_list env args))"
    using analyze_all_keys [OF aa] by (simp add: first_occurrences_def)
  have vals: "\<forall>(f, r)\<in>set results. \<exists>ms. analyze_ping_file env f = Inr (Some r, ms)"
    using analyze_all_values [OF aa] by simp
  have "list_all (\<lambda>entry. usable env (fst entry)
            \<and> analyze_ping_file env (fst entry) = Inr (Some (snd entry), [])) results"
    unfolding list_all_iff
  proof
    fix entry assume "entry \<in> set results"
    with vals obtain ms where
      a: "analyze_ping_file env (fst entry) = Inr (Some (snd entry), ms)"
      by (cases entry) auto
    then have "ms = []"
      by (auto simp: analyze_ping_file_def bindE_def split: sum.splits)
    with a show "usable env (fst entry)
        \<and> analyze_ping_file env (fst entry) = Inr (Some (snd entry), [])"
      by (simp add: usable_def)
  qed
  moreover have "heading_count (concat (map (md_section env) results)) = length results"
    using heading_count_markdown [of env results] by (simp add: markdown_lines_def)
  moreover have "stdout (main env args) = [join_lines (concat (map (md_section env) results))]"
    using m by (simp add: generate_markdown_def markdown_lines_def)
  moreover have "distinct (map fst results)"
    unfolding keys by (rule first_occurrences_distinct)
  ultimately show ?thesis using keys discover_candidates by blast
qed

theorem report_sections_witness:
  "status (main sample_env [''a.txt'', ''b.log'', ''a.txt'']) = 0 \<and>
   fst (discover sample_env [''a.txt'', ''b.log'', ''a.txt'']) = [''a.txt'', ''b.log'', ''a.txt''] \<and>
   (\<exists>results.
       stdout (main sample_env [''a.txt'', ''b.log'', ''a.txt''])
         = [join_lines (concat (map (md_section sample_env) results))]
     \<and> map fst results
         = first_occurrences (filter (usable sample_env) [''a.txt'', ''b.log'', ''a.txt''])
     \<and> heading_count (concat (map (md_section sample_env) results)) = length results)"
proof -
  have h: "status (main sample_env [''a.txt'', ''b.log'', ''a.txt'']) = 0"
    by (simp add: main_a_b_a)
  from report_sections [OF h] h show ?thesis
    by (auto simp: sample_candidates)
qed

section \<open>The warning for a directory without ping files\<close>

text \<open>
  Claim C2 says that every directory argument that yields no accepted file is reported by a
  warning, whatever the earlier arguments contributed.  The program tests the accumulated
  list of files instead of the files of the directory: the empty directory \<open>logs\<close> is
  reported when it is the only argument, and passes unnoticed after \<open>a.txt\<close>.
\<close>

theorem later_empty_directory_no_warning:
  "isdir sample_env ''logs'' \<and> arg_candidates sample_env ''logs'' = [] \<and>
   stderr (main sample_env [''logs''])
     = [''Warning: No ping files found in directory '' @ quoted ''logs'',
        ''Error: No ping files found to analyze.''] \<and>
   stderr (main sample_env [''a.txt'', ''logs'']) = [] \<and>
   status (main sample_env [''a.txt'', ''logs'']) = 0"
proof -
  have "isdir sample_env ''logs''" by (simp add: sample_env_def)
  moreover have "arg_candidates sample_env ''logs'' = []" by code_simp
  ultimately show ?thesis by (simp add: main_logs main_a_logs)
qed

section \<open>The exit status\<close>

lemma analyze_all_no_raise:
  "analyze_all env res err files = Inr (res', err') \<Longrightarrow> \<not> list_ex (raises env) files"
proof (induction files arbitrary: res err)
  case Nil
  then show ?case by simp
next
  case (Cons f fs)
  then show ?case
    by (cases "analyze_ping_file env f") (auto simp: raises_def split: prod.splits option.splits)
qed

lemma analyze_all_raise:
  "analyze_all env res err files = Inl (e, err') \<Longrightarrow> list_ex (raises env) files"
  using analyze_all_Inl [of env res err files e err'] by (simp add: list_ex_iff)

text \<open>
  Claim C9 says that the exit status is 1 exactly when there is no candidate or no usable
  analysis.  The run of \<open>a.txt late.txt\<close> has two candidates, and \<open>a.txt\<close> yields a usable
  analysis, yet the status is 1 and nothing is printed: the timestamp of \<open>late.txt\<close> is
  beyond the range of the date conversion, which raises, and the exception is not caught.
\<close>

theorem uncaught_exception_exit:
  "candidate_list sample_env [''a.txt'', ''late.txt''] = [''a.txt'', ''late.txt''] \<and>
   usable sample_env ''a.txt'' \<and>
   analyze_ping_file sample_env ''late.txt'' = Inl ValueError \<and>
   status (main sample_env [''a.txt'', ''late.txt'']) = 1 \<and>
   stdout (main sample_env [''a.txt'', ''late.txt'']) = [] \<and>
   uncaught (main sample_env [''a.txt'', ''late.txt'']) = Some ValueError"
  by (simp add: sample_candidates usable_def a_txt_analysis late_file_analysis main_a_late)

text \<open>
  Claim C9, amended.  The exit status is 1 exactly when there is no candidate, or no candidate
  yields a usable analysis, or the analysis of some candidate raises an exception, which the
  program does not catch; in every other run the status is 0, no exception is left uncaught
  and the report is the one string printed.  Whenever the status is 1, nothing is printed on
  standard output.  A run ends with an uncaught exception exactly when the analysis of some
  candidate raises.  The last line of the error stream is the message about missing files
  when there is no candidate, and the message about missing data when there are candidates,
  none raises and none yields a usable analysis.
\<close>

theorem exit_status:
  "(status (main env args) = 1 \<longleftrightarrow>
      candidate_list env args = []
      \<or> \<not> list_ex (usable env) (candidate_list env args)
      \<or> list_ex (raises env) (candidate_list env args))
   \<and> (status (main env args) \<noteq> 1 \<longrightarrow>
        status (main env args) = 0 \<and> uncaught (main env args) = None
        \<and> (\<exists>results. results \<noteq> [] \<and> stdout (main env args) = [generate_markdown env results]))
   \<and> (status (main env args) = 1 \<longrightarrow> stdout (main env args) = [])
   \<and> (uncaught (main env args) \<noteq> None \<longleftrightarrow> list_ex (raises env) (candidate_list env args))
   \<and> (candidate_list env args = [] \<longrightarrow>
        last (stderr (main env args)) = ''Error: No ping files found to analyze.'')
   \<and> (candidate_list env args \<noteq> [] \<and> \<not> list_ex (raises env) (candidate_list env args)
        \<and> \<not> list_ex (usable env) (candidate_list env args) \<longrightarrow>
        last (stderr (main env args)) = ''No valid ping data found in input files.'')"
proof (cases "candidate_list env args = []")
  case True
  from main_no_candidates [OF True] True show ?thesis by simp
next
  case False
  let ?c = "candidate_list env args"
  show ?thesis
  proof (cases "analyze_all env [] (snd (discover env args)) ?c")
    case (Inl p)
    obtain e err' where p: "p = (e, err')" by (cases p)
    with Inl have aa: "analyze_all env [] (snd (discover env args)) ?c = Inl (e, err')" by simp
    from analyze_all_raise [OF aa] have r: "list_ex (raises env) ?c" .
    from main_raise [OF False aa] r False show ?thesis by simp
  next
    case (Inr p)
    obtain res err' where p: "p = (res, err')" by (cases p)
    with Inr have aa: "analyze_all env [] (snd (discover env args)) ?c = Inr (res, err')" by simp
    from analyze_all_no_raise [OF aa] have nr: "\<not> list_ex (raises env) ?c" .
    note emp = analyze_all_empty [OF aa]
    show ?thesis
    proof (cases "res = []")
      case True
      with emp have nu: "\<not> list_ex (usable env) ?c" by simp
      from aa True have "analyze_all env [] (snd (discover env args)) ?c = Inr ([], err')" by simp
      from main_no_results [OF False this] nr nu False show ?thesis by simp
    next
      case ne: False
      with emp have us: "list_ex (usable env) ?c" by simp
      from main_report [OF False aa ne]
      have m: "status (main env args) = 0" "uncaught (main env args) = None"
        "stdout (main env args) = [generate_markdown env res]" by simp_all
      have ex: "\<exists>results. results \<noteq> [] \<and> stdout (main env args) = [generate_markdown env results]"
        using ne m(3) by blast
      from m(1,2) ex nr us False show ?thesis by simp
    qed
  qed
qed

theorem exit_status_witness:
  "list_ex (raises sample_env) (candidate_list sample_env [''a.txt'', ''late.txt'']) \<and>
   status (main sample_env [''a.txt'', ''late.txt'']) = 1 \<and>
   stdout (main sample_env [''a.txt'', ''late.txt'']) = [] \<and>
   uncaught (main sample_env [''a.txt'', ''late.txt'']) \<noteq> None \<and>
   candidate_list sample_env [''logs''] = [] \<and>
   status (main sample_env [''logs'']) = 1 \<and>
   stdout (main sample_env [''logs'']) = [] \<and>
   last (stderr (main sample_env [''logs''])) = ''Error: No ping files found to analyze.'' \<and>
   candidate_list sample_env [''a.txt'', ''logs''] \<noteq> [] \<and>
   list_ex (usable sample_env) (candidate_list sample_env [''a.txt'', ''logs'']) \<and>
   \<not> list_ex (raises sample_env) (candidate_list sample_env [''a.txt'', ''logs'']) \<and>
   status (main sample_env [''a.txt'', ''logs'']) = 0 \<and>
   uncaught (main sample_env [''a.txt'', ''logs'']) = None"
proof -
  let ?l = "[''a.txt'', ''late.txt'']" and ?a = "[''a.txt'', ''logs'']" and ?b = "[''logs'']"
  have rl: "list_ex (raises sample_env) (candidate_list sample_env ?l)"
    by (simp add: sample_candidates raises_def a_txt_analysis late_file_analysis)
  have nr: "\<not> list_ex (raises sample_env) (candidate_list sample_env ?a)"
    by (simp add: sample_candidates raises_def a_txt_analysis)
  have ne: "candidate_list sample_env ?a \<noteq> []"
    by (simp add: sample_candidates)
  have us: "list_ex (usable sample_env) (candidate_list sample_env ?a)"
    by (simp add: sample_candidates usable_def a_txt_analysis)
  have em: "candidate_list sample_env ?b = []"
    by (simp add: sample_candidates)
  note el = exit_status [of sample_env ?l]
  note ea = exit_status [of sample_env ?a]
  note eb = exit_status [of sample_env ?b]
  from el rl have l1: "status (main sample_env ?l) = 1" by blast
  with el have l2: "stdout (main sample_env ?l) = []" by blast
  from el rl have l3: "uncaught (main sample_env ?l) \<noteq> None" by blast
  from eb em have b1: "status (main sample_env ?b) = 1" by blast
  with eb have b2: "stdout (main sample_env ?b) = []" by blast
  from eb em
  have b3: "last (stderr (main sample_env ?b)) = ''Error: No ping files found to analyze.''"
    by blast
  from ea ne us nr have a1: "status (main sample_env ?a) \<noteq> 1" by blast
  with ea have a2: "status (main sample_env ?a) = 0" "uncaught (main sample_env ?a) = None"
    by blast+
  from rl l1 l2 l3 em b1 b2 b3 ne us nr a2 show ?thesis by blast
qed

section \<open>The header line\<close>

lemma takeWhile_all: "list_all P xs \<Longrightarrow> takeWhile P (xs @ ys) = xs @ takeWhile P ys"
  by (simp add: list_all_iff takeWhile_append2)

lemma dropWhile_all: "list_all P xs \<Longrightarrow> dropWhile P (xs @ ys) = dropWhile P ys"
  by (simp add: list_all_iff dropWhile_append2)

lemma takeWhile_all_stop:
  "list_all P xs \<Longrightarrow> ys = [] \<or> \<not> P (hd ys) \<Longrightarrow> takeWhile P (xs @ ys) = xs"
  by (cases ys) (auto simp: list_all_iff)

lemma dropWhile_all_stop:
  "list_all P xs \<Longrightarrow> ys = [] \<or> \<not> P (hd ys) \<Longrightarrow> dropWhile P (xs @ ys) = ys"
  by (cases ys) (auto simp: list_all_iff)

lemma re_search_skip:
  assumes "\<And>c cs. c \<in> set pre \<Longrightarrow> m (c # cs) = None"
  shows "re_search m (pre @ s) = re_search m s"
  using assms
proof (induction pre)
  case Nil
  show ?case by simp
next
  case (Cons c pre)
  then have "m (c # (pre @ s)) = None" by simp
  with Cons show ?case by simp
qed

lemma re_search_here: "s \<noteq> [] \<Longrightarrow> m s = Some g \<Longrightarrow> re_search m s = Some g"
  by (cases s) auto

lemma match_header_not_P: "c \<noteq> CHR ''P'' \<Longrightarrow> match_header (c # cs) = None"
  by (simp add: match_header_def)

lemma match_header_shape:
  assumes "ws \<noteq> []" "list_all is_space ws" "tok1 \<noteq> []" "list_all (\<lambda>c. \<not> is_space c) tok1"
    "rest = [] \<or> is_space (hd rest)"
  shows "match_header (''PING'' @ ws @ tok1 @ rest) = Some (tok1, match_paren rest)"
proof -
  have sp: "strip_prefix ''PING'' (''PING'' @ ws @ tok1 @ rest) = Some (ws @ tok1 @ rest)"
    by (simp only: strip_prefix_Some)
  from assms(3,4) have t1: "tok1 @ rest = [] \<or> \<not> is_space (hd (tok1 @ rest))"
    by (cases tok1) auto
  have tw: "takeWhile is_space (ws @ tok1 @ rest) = ws"
    by (rule takeWhile_all_stop [OF assms(2) t1])
  have dw: "dropWhile is_space (ws @ tok1 @ rest) = tok1 @ rest"
    by (rule dropWhile_all_stop [OF assms(2) t1])
  from assms(5) have r1: "rest = [] \<or> \<not> \<not> is_space (hd rest)" by simp
  have tt: "takeWhile (\<lambda>c. \<not> is_space c) (tok1 @ rest) = tok1"
    by (rule takeWhile_all_stop [OF assms(4) r1])
  have dt: "dropWhile (\<lambda>c. \<not> is_space c) (tok1 @ rest) = rest"
    by (rule dropWhile_all_stop [OF assms(4) r1])
  show ?thesis
    unfolding match_header_def sp using assms(1,3) by (simp add: tw dw tt dt Let_def)
qed

lemma search_header_shape:
  assumes "header_shape pre ws tok1 rest"
  shows "re_search match_header (pre @ ''PING'' @ ws @ tok1 @ rest) = Some (tok1, match_paren rest)"
proof -
  from assms have np: "\<And>c cs. c \<in> set pre \<Longrightarrow> match_header (c # cs) = None"
    by (auto simp: header_shape_def intro: match_header_not_P)
  from assms have "match_header (''PING'' @ ws @ tok1 @ rest) = Some (tok1, match_paren rest)"
    by (intro match_header_shape) (simp_all add: header_shape_def)
  then have "re_search match_header (''PING'' @ ws @ tok1 @ rest) = Some (tok1, match_paren rest)"
    by (intro re_search_here) simp_all
  with re_search_skip [of pre match_header, OF np] show ?thesis by simp
qed

lemma upto_last_close_exact:
  assumes "tok \<noteq> []" "CHR '')'' \<notin> set after"
  shows "upto_last_close (tok @ '')'' @ after) = Some tok"
proof -
  from assms(2) have "list_all (\<lambda>c. c \<noteq> CHR '')'') (rev after)"
    by (auto simp: list_all_iff)
  from dropWhile_all [OF this]
  have "dropWhile (\<lambda>c. c \<noteq> CHR '')'') (rev after @ CHR '')'' # rev tok) = CHR '')'' # rev tok"
    by simp
  then show ?thesis using assms(1) by (simp add: upto_last_close_def)
qed

lemma upto_last_close_some:
  assumes "tok \<noteq> []"
  shows "upto_last_close (tok @ '')'' @ after) \<noteq> None"
proof -
  have "CHR '')'' \<in> set (rev after @ CHR '')'' # rev tok)" by simp
  then have ne: "dropWhile (\<lambda>c. c \<noteq> CHR '')'') (rev after @ CHR '')'' # rev tok) \<noteq> []"
    by (simp add: dropWhile_eq_Nil_conv)
  then obtain c pre where d: "dropWhile (\<lambda>c. c \<noteq> CHR '')'') (rev after @ CHR '')'' # rev tok) = c # pre"
    by (cases "dropWhile (\<lambda>c. c \<noteq> CHR '')'') (rev after @ CHR '')'' # rev tok)") auto
  have "pre \<noteq> []"
  proof (cases "CHR '')'' \<in> set after")
    case False
    then have "list_all (\<lambda>c. c \<noteq> CHR '')'') (rev after)"
      by (auto simp: list_all_iff)
    from dropWhile_all [OF this]
    have "dropWhile (\<lambda>c. c \<noteq> CHR '')'') (rev after @ CHR '')'' # rev tok) = CHR '')'' # rev tok"
      by simp
    with d have "pre = rev tok" by simp
    with assms show ?thesis by simp
  next
    case True
    then have "CHR '')'' \<in> set (rev after)" by simp
    then have "dropWhile (\<lambda>c. c \<noteq> CHR '')'') (rev after @ CHR '')'' # rev tok)
        = dropWhile (\<lambda>c. c \<noteq> CHR '')'') (rev after) @ CHR '')'' # rev tok"
      by (rule dropWhile_append1) simp
    moreover from True have "dropWhile (\<lambda>c. c \<noteq> CHR '')'') (rev after) \<noteq> []"
      by (simp add: dropWhile_eq_Nil_conv)
    ultimately show ?thesis using d
      by (cases "dropWhile (\<lambda>c. c \<noteq> CHR '')'') (rev after)") auto
  qed
  with d show ?thesis by (simp add: upto_last_close_def)
qed

lemma upto_last_close_decomp:
  assumes "upto_last_close run = Some g"
  shows "g \<noteq> [] \<and> (\<exists>after. run = g @ '')'' @ after)"
proof -
  from assms obtain c pre where d: "dropWhile (\<lambda>c. c \<noteq> CHR '')'') (rev run) = c # pre"
    and g: "pre \<noteq> []" "g = rev pre"
    by (auto simp: upto_last_close_def split: list.splits if_splits)
  from d have "c = CHR '')''" using hd_dropWhile [of "\<lambda>c. c \<noteq> CHR '')''" "rev run"] by auto
  moreover have "rev run = takeWhile (\<lambda>c. c \<noteq> CHR '')'') (rev run) @ c # pre"
    using takeWhile_dropWhile_id [of "\<lambda>c. c \<noteq> CHR '')''" "rev run"] d by simp
  ultimately have "run = rev pre @ '')'' @ rev (takeWhile (\<lambda>c. c \<noteq> CHR '')'') (rev run))"
    by (metis append.assoc append_Cons append_Nil rev.simps(2) rev_append rev_rev_ident)
  with g show ?thesis by auto
qed

lemma match_paren_shape:
  assumes "ws \<noteq> []" "list_all is_space ws" "tok \<noteq> []" "list_all (\<lambda>c. \<not> is_space c) tok"
  shows "match_paren (ws @ ''('' @ tok @ '')'' @ rest')
           = upto_last_close (tok @ '')'' @ takeWhile (\<lambda>c. \<not> is_space c) rest')"
proof -
  have np: "\<not> is_space CHR ''(''" "\<not> is_space CHR '')''" by (simp_all add: is_space_def)
  let ?r = "''('' @ tok @ '')'' @ rest'"
  have t1: "?r = [] \<or> \<not> is_space (hd ?r)" using np by simp
  have tw: "takeWhile is_space (ws @ ?r) = ws"
    by (rule takeWhile_all_stop [OF assms(2) t1])
  have dw: "dropWhile is_space (ws @ ?r) = ?r"
    by (rule dropWhile_all_stop [OF assms(2) t1])
  have sp: "strip_prefix ''('' ?r = Some (tok @ '')'' @ rest')"
    by (simp only: strip_prefix_Some)
  have run: "takeWhile (\<lambda>c. \<not> is_space c) (tok @ CHR '')'' # rest')
          = tok @ CHR '')'' # takeWhile (\<lambda>c. \<not> is_space c) rest'"
    using takeWhile_all [OF assms(4), of "CHR '')'' # rest'"] np by simp
  show ?thesis
    unfolding match_paren_def tw dw sp using assms(1) run by simp
qed

lemma match_paren_decomp:
  assumes "match_paren rest = Some g"
  shows "paren_token_follows rest"
proof -
  let ?ws = "takeWhile is_space rest"
  from assms have ws: "?ws \<noteq> []" by (auto simp: match_paren_def split: if_splits)
  from assms ws obtain r where sp: "strip_prefix ''('' (dropWhile is_space rest) = Some r"
    and u: "upto_last_close (takeWhile (\<lambda>c. \<not> is_space c) r) = Some g"
    by (auto simp: match_paren_def split: option.splits)
  from sp have dr: "dropWhile is_space rest = ''('' @ r" by (simp only: strip_prefix_Some)
  from upto_last_close_decomp [OF u] obtain after where
    g: "g \<noteq> []" and run: "takeWhile (\<lambda>c. \<not> is_space c) r = g @ '')'' @ after" by blast
  have "r = takeWhile (\<lambda>c. \<not> is_space c) r @ dropWhile (\<lambda>c. \<not> is_space c) r" by simp
  with run have r: "r = g @ '')'' @ (after @ dropWhile (\<lambda>c. \<not> is_space c) r)" by simp
  have "rest = ?ws @ dropWhile is_space rest" by simp
  with dr r have rest: "rest = ?ws @ ''('' @ g @ '')'' @ (after @ dropWhile (\<lambda>c. \<not> is_space c) r)"
    by simp
  have "set g \<subseteq> set (takeWhile (\<lambda>c. \<not> is_space c) r)" using run by auto
  then have gs: "list_all (\<lambda>c. \<not> is_space c) g"
    by (auto simp: list_all_iff dest: set_takeWhileD)
  have wss: "list_all is_space ?ws" by (auto simp: list_all_iff dest: set_takeWhileD)
  from rest ws wss g gs show ?thesis unfolding paren_token_follows_def by blast
qed

lemma paren_token_follows_iff: "paren_token_follows rest \<longleftrightarrow> match_paren rest \<noteq> None"
proof
  assume "paren_token_follows rest"
  then obtain ws tok rest' where "rest = ws @ ''('' @ tok @ '')'' @ rest'" "ws \<noteq> []"
    "list_all is_space ws" "tok \<noteq> []" "list_all (\<lambda>c. \<not> is_space c) tok"
    unfolding paren_token_follows_def by blast
  then show "match_paren rest \<noteq> None"
    using match_paren_shape [of ws tok rest'] upto_last_close_some [of tok] by simp
next
  assume "match_paren rest \<noteq> None"
  then obtain g where "match_paren rest = Some g" by auto
  then show "paren_token_follows rest" by (rule match_paren_decomp)
qed

lemma strip_where_core:
  assumes "list_all P lead" "list_all P trail"
    and "core = [] \<or> (\<not> P (hd core) \<and> \<not> P (last core))"
  shows "strip_where P (lead @ core @ trail) = core"
proof (cases "core = []")
  case True
  with assms(1,2) have "\<forall>c\<in>set (lead @ core @ trail). P c" by (auto simp: list_all_iff)
  then have "strip_where P (lead @ core @ trail) = []" by (simp only: strip_where_Nil)
  with True show ?thesis by simp
next
  case False
  with assms(3) have h: "\<not> P (hd core)" and l: "\<not> P (last core)" by blast+
  from False h have "core @ trail = [] \<or> \<not> P (hd (core @ trail))" by simp
  from dropWhile_all_stop [OF assms(1) this]
  have d1: "dropWhile P (lead @ core @ trail) = core @ trail" .
  from False l have "rev core = [] \<or> \<not> P (hd (rev core))" by (simp add: hd_rev)
  moreover from assms(2) have "list_all P (rev trail)" by (simp add: list_all_iff)
  ultimately have "dropWhile P (rev trail @ rev core) = rev core"
    by (intro dropWhile_all_stop)
  then show ?thesis by (simp add: strip_where_def d1)
qed

lemma target_with_paren:
  assumes "header_shape pre ws tok1 rest"
    and "rest = ws2 @ ''('' @ tok2 @ '')'' @ rest2" "ws2 \<noteq> []" "list_all is_space ws2"
    and "tok2 \<noteq> []" "list_all (\<lambda>c. \<not> is_space c) tok2"
    and "CHR '')'' \<notin> set (takeWhile (\<lambda>c. \<not> is_space c) rest2)"
    and "tok2 = lead @ core @ trail"
    and "list_all (\<lambda>c. c \<in> set ''()'') lead" "list_all (\<lambda>c. c \<in> set ''()'') trail"
    and "core = [] \<or> (hd core \<notin> set ''()'' \<and> last core \<notin> set ''()'')"
  shows "target_of_line (pre @ ''PING'' @ ws @ tok1 @ rest) = \<lparr>ip = core, hostname = Some tok1\<rparr>"
proof -
  have "match_paren rest = Some tok2"
    unfolding assms(2) match_paren_shape [OF assms(3,4,5,6)]
    by (rule upto_last_close_exact [OF assms(5,7)])
  with search_header_shape [OF assms(1)]
  have "target_of_line (pre @ ''PING'' @ ws @ tok1 @ rest)
          = \<lparr>ip = strip_chars ''()'' tok2, hostname = Some tok1\<rparr>"
    by (simp only: target_of_line_def option.case prod.case)
  moreover have "strip_chars ''()'' tok2 = core"
    unfolding strip_chars_def assms(8) by (rule strip_where_core [OF assms(9,10,11)])
  ultimately show ?thesis by simp
qed

lemma target_without_paren:
  assumes "header_shape pre ws tok1 rest" and "\<not> paren_token_follows rest"
  shows "target_of_line (pre @ ''PING'' @ ws @ tok1 @ rest) = \<lparr>ip = tok1, hostname = None\<rparr>"
proof -
  from assms(2) have "match_paren rest = None" by (simp add: paren_token_follows_iff)
  with search_header_shape [OF assms(1)] show ?thesis
    by (simp only: target_of_line_def option.case prod.case)
qed

lemma spec_example_analysis:
  "analyze_lines sample_env spec_example_lines =
     Inr \<lparr>target = \<lparr>ip = ''93.184.216.34'', hostname = Some ''example.com''\<rparr>,
          stats = \<lparr>min_time = Fin 6305039478318694 (- 49),
                    max_time = Fin 6305039478318694 (- 49),
                    avg_time = Fin 6305039478318694 (- 49), mdev = fzero,
                    stat_total_pings = 1, packet_loss = fzero\<rparr>,
          time_range = None, has_timestamps = False\<rparr>"
  by code_simp

lemma spec_example_analysis_312:
  "analyze_lines sample_env_312 spec_example_lines =
     Inr \<lparr>target = \<lparr>ip = ''93.184.216.34'', hostname = Some ''example.com''\<rparr>,
          stats = \<lparr>min_time = Fin 6305039478318694 (- 49),
                    max_time = Fin 6305039478318694 (- 49),
                    avg_time = Fin 6305039478318694 (- 49), mdev = fzero,
                    stat_total_pings = 1, packet_loss = fzero\<rparr>,
          time_range = None, has_timestamps = False\<rparr>"
  by code_simp

lemma spec_example_loop:
  "run_loop sample_env False init_state spec_example_lines =
     Inr \<lparr>ping_times = [Fin 6305039478318694 (- 49)], timestamps = [], sequences = [1],
          total_pings = 1\<rparr>"
  by code_simp

lemma float_11_2:
  "py_float ''11.2'' = Fin 6305039478318694 (- 49)"
  "\<bar>fval (Fin 6305039478318694 (- 49)) - 112 / 10\<bar> \<le> 1 / 2 ^ 50"
  by code_simp (simp add: power_int_minus)

text \<open>
  Claim C7.  The target of an analysis is computed from the first line alone.  For a first
  line \<open>pre PING ws tok1 rest\<close>: when \<open>rest\<close> is white space followed by a parenthesised
  token \<open>tok2\<close>, the hostname is \<open>tok1\<close> and the ip is \<open>tok2\<close> without the parentheses at its
  two ends (\<open>tok2\<close> is \<open>lead core trail\<close> with \<open>lead\<close> and \<open>trail\<close> made of parentheses and
  \<open>core\<close> neither starting nor ending with one, and the ip is \<open>core\<close>); when no parenthesised
  token follows, the ip is \<open>tok1\<close> and there is no hostname.  For the two lines of the
  specification's example the analysis yields, with either summation, hostname
  \<open>example.com\<close>, ip \<open>93.184.216.34\<close>, the single sample with sequence number 1 and time
  11.2, one probe, no loss, minimum, maximum and average 11.2 and mean deviation 0, where 11.2
  is the float \<open>6305039478318694 * 2 ^ - 49\<close>, the value of the text \<open>11.2\<close>, which differs
  from 11.2 by less than \<open>2 ^ - 50\<close>.
\<close>

theorem target_extraction:
  "(analyze_lines env (l # ls) = Inr r \<longrightarrow> target r = target_of_line l)
   \<and> (header_shape pre ws tok1 rest \<longrightarrow>
        (rest = ws2 @ ''('' @ tok2 @ '')'' @ rest2 \<and> ws2 \<noteq> [] \<and> list_all is_space ws2
           \<and> tok2 \<noteq> [] \<and> list_all (\<lambda>c. \<not> is_space c) tok2
           \<and> CHR '')'' \<notin> set (takeWhile (\<lambda>c. \<not> is_space c) rest2)
           \<and> tok2 = lead @ core @ trail
           \<and> list_all (\<lambda>c. c \<in> set ''()'') lead \<and> list_all (\<lambda>c. c \<in> set ''()'') trail
           \<and> (core = [] \<or> (hd core \<notin> set ''()'' \<and> last core \<notin> set ''()''))
         \<longrightarrow> target_of_line (pre @ ''PING'' @ ws @ tok1 @ rest)
               = \<lparr>ip = core, hostname = Some tok1\<rparr>)
      \<and> (\<not> paren_token_follows rest
         \<longrightarrow> target_of_line (pre @ ''PING'' @ ws @ tok1 @ rest)
               = \<lparr>ip = tok1, hostname = None\<rparr>))
   \<and> analyze_lines sample_env spec_example_lines =
       Inr \<lparr>target = \<lparr>ip = ''93.184.216.34'', hostname = Some ''example.com''\<rparr>,
            stats = \<lparr>min_time = Fin 6305039478318694 (- 49),
                      max_time = Fin 6305039478318694 (- 49),
                      avg_time = Fin 6305039478318694 (- 49), mdev = fzero,
                      stat_total_pings = 1, packet_loss = fzero\<rparr>,
            time_range = None, has_timestamps = False\<rparr>
   \<and> analyze_lines sample_env_312 spec_example_lines
       = analyze_lines sample_env spec_example_lines
   \<and> run_loop sample_env False init_state spec_example_lines =
       Inr \<lparr>ping_times = [Fin 6305039478318694 (- 49)], timestamps = [], sequences = [1],
            total_pings = 1\<rparr>
   \<and> py_float ''11.2'' = Fin 6305039478318694 (- 49)
   \<and> \<bar>fval (Fin 6305039478318694 (- 49)) - 112 / 10\<bar> \<le> 1 / 2 ^ 50"
proof -
  have a: "analyze_lines env (l # ls) = Inr r \<longrightarrow> target r = target_of_line l"
    using analyze_lines_Inr(3) [of env "l # ls" r] by (simp add: parse_target_def)
  have b: "analyze_lines sample_env_312 spec_example_lines
       = analyze_lines sample_env spec_example_lines"
    by (simp only: spec_example_analysis spec_example_analysis_312)
  from a b target_with_paren target_without_paren spec_example_analysis spec_example_loop
    float_11_2
  show ?thesis by blast
qed

theorem target_extraction_witness:
  "header_shape [] '' '' ''example.com'' '' (93.184.216.34) 56 data bytes'' \<and>
   target_of_line ''PING example.com (93.184.216.34) 56 data bytes''
     = \<lparr>ip = ''93.184.216.34'', hostname = Some ''example.com''\<rparr> \<and>
   header_shape [] '' '' ''h'' '' ((x))'' \<and>
   target_of_line ''PING h ((x))'' = \<lparr>ip = ''x'', hostname = Some ''h''\<rparr> \<and>
   header_shape [] '' '' ''10.0.0.1'' '' 56 data bytes'' \<and>
   \<not> paren_token_follows '' 56 data bytes'' \<and>
   target_of_line ''PING 10.0.0.1 56 data bytes'' = \<lparr>ip = ''10.0.0.1'', hostname = None\<rparr> \<and>
   target a_txt_result = target_of_line (hd spec_example_lines)"
proof -
  have h1: "header_shape [] '' '' ''example.com'' '' (93.184.216.34) 56 data bytes''"
    by code_simp
  have p1: "'' (93.184.216.34) 56 data bytes''
        = '' '' @ ''('' @ ''93.184.216.34'' @ '')'' @ '' 56 data bytes''
      \<and> '' '' \<noteq> [] \<and> list_all is_space '' '' \<and> ''93.184.216.34'' \<noteq> []
      \<and> list_all (\<lambda>c. \<not> is_space c) ''93.184.216.34''
      \<and> CHR '')'' \<notin> set (takeWhile (\<lambda>c. \<not> is_space c) '' 56 data bytes'')
      \<and> ''93.184.216.34'' = [] @ ''93.184.216.34'' @ []
      \<and> list_all (\<lambda>c. c \<in> set ''()'') [] \<and> list_all (\<lambda>c. c \<in> set ''()'') []
      \<and> (''93.184.216.34'' = []
          \<or> (hd ''93.184.216.34'' \<notin> set ''()'' \<and> last ''93.184.216.34'' \<notin> set ''()''))"
    by code_simp
  have h3: "header_shape [] '' '' ''h'' '' ((x))''" by code_simp
  have p3: "'' ((x))'' = '' '' @ ''('' @ ''(x)'' @ '')'' @ []
      \<and> '' '' \<noteq> [] \<and> list_all is_space '' '' \<and> ''(x)'' \<noteq> []
      \<and> list_all (\<lambda>c. \<not> is_space c) ''(x)''
      \<and> CHR '')'' \<notin> set (takeWhile (\<lambda>c. \<not> is_space c) [])
      \<and> ''(x)'' = ''('' @ ''x'' @ '')''
      \<and> list_all (\<lambda>c. c \<in> set ''()'') ''('' \<and> list_all (\<lambda>c. c \<in> set ''()'') '')''
      \<and> (''x'' = [] \<or> (hd ''x'' \<notin> set ''()'' \<and> last ''x'' \<notin> set ''()''))"
    by code_simp
  have h2: "header_shape [] '' '' ''10.0.0.1'' '' 56 data bytes''" by code_simp
  have "match_paren '' 56 data bytes'' = None" by code_simp
  then have p2: "\<not> paren_token_follows '' 56 data bytes''" by (simp add: paren_token_follows_iff)
  have ex: "analyze_lines sample_env (hd spec_example_lines # tl spec_example_lines) = Inr a_txt_result"
    by code_simp
  from target_extraction [where pre = "[]" and ws = "'' ''" and ?tok1.0 = "''example.com''"
      and rest = "'' (93.184.216.34) 56 data bytes''" and ?ws2.0 = "'' ''"
      and ?tok2.0 = "''93.184.216.34''" and ?rest2.0 = "'' 56 data bytes''"
      and lead = "[]" and core = "''93.184.216.34''" and trail = "[]"
      and env = sample_env and l = "hd spec_example_lines" and ls = "tl spec_example_lines"
      and r = a_txt_result] h1 p1 ex
  have c1: "target_of_line ([] @ ''PING'' @ '' '' @ ''example.com'' @ '' (93.184.216.34) 56 data bytes'')
      = \<lparr>ip = ''93.184.216.34'', hostname = Some ''example.com''\<rparr>"
    and c4: "target a_txt_result = target_of_line (hd spec_example_lines)"
    by blast+
  from target_extraction [where pre = "[]" and ws = "'' ''" and ?tok1.0 = "''h''"
      and rest = "'' ((x))''" and ?ws2.0 = "'' ''" and ?tok2.0 = "''(x)''" and ?rest2.0 = "[]"
      and lead = "''(''" and core = "''x''" and trail = "'')''"] h3 p3
  have c3: "target_of_line ([] @ ''PING'' @ '' '' @ ''h'' @ '' ((x))'')
      = \<lparr>ip = ''x'', hostname = Some ''h''\<rparr>"
    by blast
  from target_extraction [where pre = "[]" and ws = "'' ''" and ?tok1.0 = "''10.0.0.1''"
      and rest = "'' 56 data bytes''"] h2 p2
  have c2: "target_of_line ([] @ ''PING'' @ '' '' @ ''10.0.0.1'' @ '' 56 data bytes'')
      = \<lparr>ip = ''10.0.0.1'', hostname = None\<rparr>"
    by blast
  from c1 c2 c3 c4 h1 h2 h3 p2 show ?thesis by simp
qed

end
